theory Spec2Isabelle
  imports Complex_Main "HOL-Library.Word" "HOL-Library.Monad_Syntax"
begin

unbundle bit_operations_syntax

section \<open>The RGF bitmap (package rgf)\<close>

text \<open>
  A shallow embedding of \<^verbatim>\<open>rgf.go\<close>. Go's \<^verbatim>\<open>uint8\<close> is \<open>8 word\<close>; a slice is a
  list. Indexing a slice out of range panics in Go: every function that indexes
  returns an \<open>option\<close>, and \<open>None\<close> is that run-time panic.
\<close>

type_synonym u8 = "8 word"

record Bitmap =
  Width :: u8
  Height :: u8
  PixelRows :: "u8 list list"

text \<open>\<^verbatim>\<open>stride := (int(bmp.Width) + 7) / 8\<close>\<close>

definition stride :: "u8 \<Rightarrow> nat" where
  "stride w = (unat w + 7) div 8"

text \<open>\<^verbatim>\<open>Create\<close>: \<open>Height\<close> rows of \<open>stride\<close> zero bytes each.\<close>

definition Create :: "u8 \<Rightarrow> u8 \<Rightarrow> Bitmap" where
  "Create w h =
     \<lparr>Width = w, Height = h, PixelRows = replicate (unat h) (replicate (stride w) 0)\<rparr>"

text \<open>
  \<^verbatim>\<open>Get\<close>: the range check first, then \<^verbatim>\<open>img.PixelRows[y][ByteIndex]\<close>, which
  panics when the row or the byte is not there.
\<close>

definition Get :: "Bitmap \<Rightarrow> u8 \<Rightarrow> u8 \<Rightarrow> bool option" where
  "Get img x y =
     (if x \<ge> Width img \<or> y \<ge> Height img then Some False
      else
        let ByteIndex = x div 8; BitIndex = x mod 8 in
        if unat y < length (PixelRows img) then
          let row = PixelRows img ! unat y in
          if unat ByteIndex < length row then
            Some ((drop_bit (unat BitIndex) (row ! unat ByteIndex)) AND 1 = 1)
          else None
        else None)"

text \<open>
  \<^verbatim>\<open>Set\<close>: the same range check; \<^verbatim>\<open>|= 1 << BitIndex\<close> for black,
  \<^verbatim>\<open>&= 0xFF ^ (1 << BitIndex)\<close> for white. The bitmap is mutated in place; the
  model returns the new bitmap.
\<close>

definition Set :: "Bitmap \<Rightarrow> u8 \<Rightarrow> u8 \<Rightarrow> bool \<Rightarrow> Bitmap option" where
  "Set img x y black =
     (if x \<ge> Width img \<or> y \<ge> Height img then Some img
      else
        let ByteIndex = x div 8; BitIndex = x mod 8 in
        if unat y < length (PixelRows img) then
          let row = PixelRows img ! unat y in
          if unat ByteIndex < length row then
            let old = row ! unat ByteIndex;
                new = (if black then old OR push_bit (unat BitIndex) 1
                       else old AND (0xFF XOR push_bit (unat BitIndex) 1))
            in Some (img\<lparr>PixelRows := (PixelRows img)[unat y := row[unat ByteIndex := new]]\<rparr>)
          else None
        else None)"

text \<open>The byte written by \<^verbatim>\<open>Set\<close>, named for the proofs.\<close>

definition set_bit_u8 :: "u8 \<Rightarrow> nat \<Rightarrow> bool \<Rightarrow> u8" where
  "set_bit_u8 old n black =
     (if black then old OR push_bit n 1 else old AND (0xFF XOR push_bit n 1))"

text \<open>The bit that holds pixel \<open>(x, y)\<close>, read without any check.\<close>

definition pix :: "Bitmap \<Rightarrow> u8 \<Rightarrow> u8 \<Rightarrow> bool" where
  "pix img x y = bit (PixelRows img ! unat y ! (unat x div 8)) (unat x mod 8)"

text \<open>
  The invariant of the data model: \<open>Height\<close> rows, each of \<open>stride\<close> bytes.
  \<^verbatim>\<open>Create\<close> establishes it and \<^verbatim>\<open>Set\<close> keeps it.
\<close>

definition wf_Bitmap :: "Bitmap \<Rightarrow> bool" where
  "wf_Bitmap img \<longleftrightarrow>
     length (PixelRows img) = unat (Height img) \<and>
     list_all (\<lambda>row. length row = stride (Width img)) (PixelRows img)"

subsection \<open>Streams\<close>

text \<open>
  \<^verbatim>\<open>io.Writer\<close> and \<^verbatim>\<open>io.Reader\<close> are interfaces: \<^verbatim>\<open>Write\<close> and \<^verbatim>\<open>Read\<close> take
  the stream as a parameter. A writer maps its state and the slice to write to the
  count \<open>n\<close>, the error (\<open>None\<close> is \<^verbatim>\<open>nil\<close>) and its new state. A reader maps its
  state and \<^verbatim>\<open>len(p)\<close> to the bytes it delivers, the error and its new state; the
  bytes land at the front of \<open>p\<close> and their number is \<open>n\<close>, which is never more
  than \<^verbatim>\<open>len(p)\<close>.
\<close>

type_synonym ('w, 'e) writer = "'w \<Rightarrow> u8 list \<Rightarrow> int \<times> 'e option \<times> 'w"
type_synonym ('r, 'e) reader = "'r \<Rightarrow> nat \<Rightarrow> u8 list \<times> 'e option \<times> 'r"

text \<open>\<^verbatim>\<open>n, err := r.Read(p)\<close>: the new contents of \<open>p\<close>, \<open>n\<close>, \<open>err\<close> and the new state.\<close>

definition read_into ::
  "('r, 'e) reader \<Rightarrow> 'r \<Rightarrow> u8 list \<Rightarrow> (u8 list \<times> nat \<times> 'e option) \<times> 'r" where
  "read_into rd r p =
     (case rd r (length p) of (bs, err, r') \<Rightarrow>
        let got = take (length p) bs
        in ((got @ drop (length got) p, length got, err), r'))"

text \<open>
  The errors \<^verbatim>\<open>Read\<close> returns: its own two (\<^verbatim>\<open>errors.New("Bitmap header is truncated")\<close>
  and \<^verbatim>\<open>errors.New("Bitmap is truncated")\<close>) and whatever the stream returned.
\<close>

datatype 'e error = HeaderTruncated | BitmapTruncated | Underlying 'e

text \<open>\<^verbatim>\<open>Write\<close>: the two header bytes, then every row; stops at the first error.\<close>

fun write_rows ::
  "('w, 'e) writer \<Rightarrow> u8 list list \<Rightarrow> int \<Rightarrow> 'w \<Rightarrow> (int \<times> 'e option) \<times> 'w" where
  "write_rows wr [] n s = ((n, None), s)"
| "write_rows wr (row # rows) n s =
     (case wr s row of (n2, err, s') \<Rightarrow>
        if err \<noteq> None then ((n + n2, err), s')
        else write_rows wr rows (n + n2) s')"

definition Write :: "('w, 'e) writer \<Rightarrow> Bitmap \<Rightarrow> 'w \<Rightarrow> (int \<times> 'e option) \<times> 'w" where
  "Write wr img s =
     (case wr s [Width img, Height img] of (n, err, s') \<Rightarrow>
        if err \<noteq> None then ((n, err), s')
        else write_rows wr (PixelRows img) n s')"

text \<open>
  \<^verbatim>\<open>Read\<close>: the loop over the rows of the fresh bitmap. The error of the stream is
  looked at first, the count second. \<open>Inl\<close> is the error that ends the loop.
\<close>

fun read_rows ::
  "('r, 'e) reader \<Rightarrow> nat \<Rightarrow> u8 list list \<Rightarrow> 'r \<Rightarrow> ('e error + u8 list list) \<times> 'r" where
  "read_rows rd st [] r = (Inr [], r)"
| "read_rows rd st (v # vs) r =
     (case read_into rd r v of ((v', n, err), r') \<Rightarrow>
        (case err of
           Some e \<Rightarrow> (Inl (Underlying e), r')
         | None \<Rightarrow>
             if n < st then (Inl BitmapTruncated, r')
             else (case read_rows rd st vs r' of
                     (Inl e, r'') \<Rightarrow> (Inl e, r'')
                   | (Inr vs', r'') \<Rightarrow> (Inr (v' # vs'), r''))))"

text \<open>
  \<^verbatim>\<open>Read\<close> returns the Go pair \<^verbatim>\<open>(*Bitmap, error)\<close>: \<open>None\<close> in the first component
  is the \<^verbatim>\<open>nil\<close> bitmap, \<open>None\<close> in the second the \<^verbatim>\<open>nil\<close> error.
\<close>

definition Read ::
  "('r, 'e) reader \<Rightarrow> 'r \<Rightarrow> (Bitmap option \<times> 'e error option) \<times> 'r" where
  "Read rd r =
     (case read_into rd r [0, 0] of ((header, n, err), r1) \<Rightarrow>
        (case err of
           Some e \<Rightarrow> ((None, Some (Underlying e)), r1)
         | None \<Rightarrow>
             if n \<noteq> 2 then ((None, Some HeaderTruncated), r1)
             else
               let w = header ! 0; h = header ! 1; bmp = Create w h in
               (case read_rows rd (stride w) (PixelRows bmp) r1 of
                  (Inl e, r2) \<Rightarrow> ((None, Some e), r2)
                | (Inr rows, r2) \<Rightarrow> ((Some (bmp\<lparr>PixelRows := rows\<rparr>), None), r2))))"

text \<open>
  The in-memory stream, as Go's \<^verbatim>\<open>bytes.Buffer\<close> behaves: a write appends all of the
  slice and never fails; a read takes up to \<^verbatim>\<open>len(p)\<close> of the unread bytes, and on an
  empty buffer returns \<^verbatim>\<open>io.EOF\<close> unless \<^verbatim>\<open>len(p)\<close> is zero.
\<close>

datatype io_error = EOF

definition buf_write :: "(u8 list, io_error) writer" where
  "buf_write s p = (int (length p), None, s @ p)"

definition buf_read :: "(u8 list, io_error) reader" where
  "buf_read s n =
     (if s = [] then (if n = 0 then ([], None, s) else ([], Some EOF, s))
      else (take n s, None, drop n s))"

text \<open>
  Two more readers of the Go library over the same data. \<^verbatim>\<open>bytes.Reader\<close> returns
  \<^verbatim>\<open>io.EOF\<close> for every read at the end of its data, a read into an empty slice
  included. \<^verbatim>\<open>iotest.OneByteReader\<close> over a buffer delivers one byte per call (and
  nothing, without error, into an empty slice). Both keep the contract of
  \<^verbatim>\<open>io.Reader\<close>.
\<close>

definition eof_read :: "(u8 list, io_error) reader" where
  "eof_read s n = (if s = [] then ([], Some EOF, s) else (take n s, None, drop n s))"

definition one_byte_read :: "(u8 list, io_error) reader" where
  "one_byte_read s n = (if n = 0 then ([], None, s) else buf_read s 1)"

text \<open>
  A stream that serves full reads: \<open>unread r\<close> is the data still to come in state
  \<open>r\<close>, and a read of no more bytes than that delivers exactly the next \<open>n\<close> bytes,
  without error. The in-memory buffer is such a stream, and so is a file.
\<close>

definition full_reads :: "('r, 'e) reader \<Rightarrow> ('r \<Rightarrow> u8 list) \<Rightarrow> bool" where
  "full_reads rd unread \<longleftrightarrow>
     (\<forall>r n. n \<le> length (unread r) \<longrightarrow>
        (case rd r n of (bs, err, r') \<Rightarrow>
           bs = take n (unread r) \<and> err = None \<and> unread r' = drop n (unread r)))"

text \<open>The bytes of a bitmap on the wire: the header, then the rows in order.\<close>

definition encode :: "Bitmap \<Rightarrow> u8 list" where
  "encode img = [Width img, Height img] @ concat (PixelRows img)"

text \<open>
  The sequence of results of successive reads of the given lengths, and the test the
  loop of \<^verbatim>\<open>Read\<close> applies to each of them.
\<close>

fun reads :: "('r, 'e) reader \<Rightarrow> 'r \<Rightarrow> nat list \<Rightarrow> (u8 list \<times> 'e option) list" where
  "reads rd r [] = []"
| "reads rd r (n # ns) =
     (case rd r n of (bs, err, r') \<Rightarrow> (take n bs, err) # reads rd r' ns)"

definition row_ok :: "nat \<Rightarrow> u8 list \<times> 'e option \<Rightarrow> bool" where
  "row_ok st res \<longleftrightarrow> snd res = None \<and> st \<le> length (fst res)"

subsection \<open>Source images\<close>

text \<open>
  \<^verbatim>\<open>image.Image\<close> is an interface as well. The model keeps what the package asks of
  it: the bounds, and \<open>GrayAt src x y\<close> for \<^verbatim>\<open>colorToGray(src.At(x, y)).Y\<close>. Go's
  \<^verbatim>\<open>int\<close> is 64 bits wide here; where a value comes from the bounds, the wrap-around
  of the arithmetic is written out.
\<close>

record Image =
  MinX :: int
  MinY :: int
  MaxX :: int
  MaxY :: int
  GrayAt :: "int \<Rightarrow> int \<Rightarrow> u8"

definition wrap64 :: "int \<Rightarrow> int" where
  "wrap64 i = (i + 2 ^ 63) mod 2 ^ 64 - 2 ^ 63"

definition createFromImageSize :: "Image \<Rightarrow> Bitmap \<times> int \<times> int" where
  "createFromImageSize src =
     (let w = wrap64 (MaxX src - MinX src);
          h = wrap64 (MaxY src - MinY src);
          w = (if w < 0 then 0 else if w > 255 then 255 else w);
          h = (if h < 0 then 0 else if h > 255 then 255 else h)
      in (Create (word_of_int w) (word_of_int h), w, h))"

text \<open>\<^verbatim>\<open>ByThreshold\<close>: the inner loop over \<open>x\<close>, the outer loop over \<open>y\<close>.\<close>

function thr_cols :: "Image \<Rightarrow> u8 \<Rightarrow> int \<Rightarrow> int \<Rightarrow> int \<Rightarrow> Bitmap \<Rightarrow> Bitmap option" where
  "thr_cols src threshold w y x bmp =
     (if x < w then
        let lum = GrayAt src (wrap64 (x + MinX src)) (wrap64 (y + MinY src)) in
        (case Set bmp (word_of_int x) (word_of_int y) (lum < threshold) of
           None \<Rightarrow> None
         | Some bmp' \<Rightarrow> thr_cols src threshold w y (x + 1) bmp')
      else Some bmp)"
  by pat_completeness auto
termination
  by (relation "measure (\<lambda>(src, threshold, w, y, x, bmp). nat (w - x))") auto

function thr_rows :: "Image \<Rightarrow> u8 \<Rightarrow> int \<Rightarrow> int \<Rightarrow> int \<Rightarrow> Bitmap \<Rightarrow> Bitmap option" where
  "thr_rows src threshold w h y bmp =
     (if y < h then
        (case thr_cols src threshold w y 0 bmp of
           None \<Rightarrow> None
         | Some bmp' \<Rightarrow> thr_rows src threshold w h (y + 1) bmp')
      else Some bmp)"
  by pat_completeness auto
termination
  by (relation "measure (\<lambda>(src, threshold, w, h, y, bmp). nat (h - y))") auto

definition ByThreshold :: "Image \<Rightarrow> u8 \<Rightarrow> Bitmap option" where
  "ByThreshold src threshold =
     (case createFromImageSize src of (bmp, w, h) \<Rightarrow> thr_rows src threshold w h 0 bmp)"

text \<open>
  The shape the loops of \<^verbatim>\<open>ByThreshold\<close> and \<^verbatim>\<open>fillByGrayMap\<close> share, for the
  proofs: \<^verbatim>\<open>Set(uint8(x), uint8(y), f x y)\<close> for every \<open>y < h\<close> and \<open>x < w\<close>, row by
  row.
\<close>

function set_cols :: "(int \<Rightarrow> int \<Rightarrow> bool) \<Rightarrow> int \<Rightarrow> int \<Rightarrow> int \<Rightarrow> Bitmap \<Rightarrow> Bitmap option" where
  "set_cols f w y x bmp =
     (if x < w then
        (case Set bmp (word_of_int x) (word_of_int y) (f x y) of
           None \<Rightarrow> None
         | Some bmp' \<Rightarrow> set_cols f w y (x + 1) bmp')
      else Some bmp)"
  by pat_completeness auto
termination
  by (relation "measure (\<lambda>(f, w, y, x, bmp). nat (w - x))") auto

function set_rows :: "(int \<Rightarrow> int \<Rightarrow> bool) \<Rightarrow> int \<Rightarrow> int \<Rightarrow> int \<Rightarrow> Bitmap \<Rightarrow> Bitmap option" where
  "set_rows f w h y bmp =
     (if y < h then
        (case set_cols f w y 0 bmp of
           None \<Rightarrow> None
         | Some bmp' \<Rightarrow> set_rows f w h (y + 1) bmp')
      else Some bmp)"
  by pat_completeness auto
termination
  by (relation "measure (\<lambda>(f, w, h, y, bmp). nat (h - y))") auto

text \<open>The luminance \<^verbatim>\<open>ByThreshold\<close> and \<^verbatim>\<open>floatGrayMap\<close> read for the pixel \<open>(x, y)\<close>.\<close>

definition lum_at :: "Image \<Rightarrow> int \<Rightarrow> int \<Rightarrow> u8" where
  "lum_at src x y = GrayAt src (wrap64 (x + MinX src)) (wrap64 (y + MinY src))"

text \<open>The clamp of \<^verbatim>\<open>createFromImageSize\<close>, and the extents it is applied to.\<close>

definition clamp255 :: "int \<Rightarrow> int" where
  "clamp255 e = (if e < 0 then 0 else if e > 255 then 255 else e)"

definition extent_x :: "Image \<Rightarrow> int" where
  "extent_x src = wrap64 (MaxX src - MinX src)"

definition extent_y :: "Image \<Rightarrow> int" where
  "extent_y src = wrap64 (MaxY src - MinY src)"

text \<open>A 2 by 1 image with luminances 99 and 100, and a 300 by 10 image, as examples.\<close>

definition img_2x1 :: Image where
  "img_2x1 = \<lparr>MinX = 0, MinY = 0, MaxX = 2, MaxY = 1,
               GrayAt = (\<lambda>x y. if x = 0 then 99 else 100)\<rparr>"

definition img_300x10 :: "u8 \<Rightarrow> Image" where
  "img_300x10 outside = \<lparr>MinX = 5, MinY = 7, MaxX = 305, MaxY = 17,
               GrayAt = (\<lambda>x y. if x < 260 then 40 else outside)\<rparr>"

subsection \<open>Dithering\<close>

text \<open>
  The gray map is a \<^verbatim>\<open>[]float64\<close>. Its values are modelled as reals: the division
  by 255, the subtraction, the products, the quotients and \<^verbatim>\<open>+=\<close> are exact here and
  rounded to the nearest double in the code. Which indices are read and written, the
  sizes, and what is read of the source do not depend on the values; the comparisons
  with 0.5 do, so where a value of the code lies within rounding distance of 0.5 the
  pixel of the model can differ from the pixel of the code. The concrete grids below
  are evaluated in this exact arithmetic; their values stay away from 0.5 by far more
  than any rounding. What the slice does is: an index outside \<open>0 \<le> i < len\<close> panics.
\<close>

definition grid_get :: "real list \<Rightarrow> int \<Rightarrow> real option" where
  "grid_get g i = (if 0 \<le> i \<and> i < int (length g) then Some (g ! nat i) else None)"

definition grid_put :: "real list \<Rightarrow> int \<Rightarrow> real \<Rightarrow> real list option" where
  "grid_put g i v = (if 0 \<le> i \<and> i < int (length g) then Some (g[nat i := v]) else None)"

text \<open>\<^verbatim>\<open>grayMap[i] += v\<close>\<close>

definition grid_add :: "real list \<Rightarrow> int \<Rightarrow> real \<Rightarrow> real list option" where
  "grid_add g i v =
     (if 0 \<le> i \<and> i < int (length g) then Some (g[nat i := g ! nat i + v]) else None)"

text \<open>\<^verbatim>\<open>floatGrayMap\<close>; \<^verbatim>\<open>make\<close> panics on a negative length.\<close>

function gray_cols :: "Image \<Rightarrow> int \<Rightarrow> int \<Rightarrow> int \<Rightarrow> real list \<Rightarrow> real list option" where
  "gray_cols src w y x grayMap =
     (if x < w then
        let lum = GrayAt src (wrap64 (x + MinX src)) (wrap64 (y + MinY src)) in
        (case grid_put grayMap (y * w + x) (real (unat lum) / 255) of
           None \<Rightarrow> None
         | Some grayMap' \<Rightarrow> gray_cols src w y (x + 1) grayMap')
      else Some grayMap)"
  by pat_completeness auto
termination
  by (relation "measure (\<lambda>(src, w, y, x, grayMap). nat (w - x))") auto

function gray_rows :: "Image \<Rightarrow> int \<Rightarrow> int \<Rightarrow> int \<Rightarrow> real list \<Rightarrow> real list option" where
  "gray_rows src w h y grayMap =
     (if y < h then
        (case gray_cols src w y 0 grayMap of
           None \<Rightarrow> None
         | Some grayMap' \<Rightarrow> gray_rows src w h (y + 1) grayMap')
      else Some grayMap)"
  by pat_completeness auto
termination
  by (relation "measure (\<lambda>(src, w, h, y, grayMap). nat (h - y))") auto

definition floatGrayMap :: "Image \<Rightarrow> int \<Rightarrow> int \<Rightarrow> real list option" where
  "floatGrayMap src w h =
     (if w * h < 0 then None else gray_rows src w h 0 (replicate (nat (w * h)) 0))"

text \<open>
  \<^verbatim>\<open>floydSteinbergDither\<close>: the body of the inner loop, with the index expressions
  as the source writes them, then the two loops.
\<close>

definition dither_cell :: "real list \<Rightarrow> int \<Rightarrow> int \<Rightarrow> int \<Rightarrow> int \<Rightarrow> real list option" where
  "dither_cell grayMap w h y x = do {
     orig \<leftarrow> grid_get grayMap (y * w + x);
     let new = (if orig \<ge> 0.5 then 1.0 else 0.0);
     g \<leftarrow> grid_put grayMap (y * w + x) new;
     let quantError = orig - new;
     g \<leftarrow> (if x \<noteq> w - 1 then grid_add g ((y + 0) * w + x + 1) (quantError * 7 / 16)
          else Some g);
     if y \<noteq> h - 1 then do {
       g \<leftarrow> grid_add g ((y + 1) * w + x - 1) (quantError * 3 / 16);
       g \<leftarrow> grid_add g ((y + 1) * w + x + 0) (quantError * 5 / 16);
       if x \<noteq> w - 1 then grid_add g ((y + 1) * w + x + 1) (quantError * 1 / 16)
       else Some g
     } else Some g
   }"

function dither_cols :: "real list \<Rightarrow> int \<Rightarrow> int \<Rightarrow> int \<Rightarrow> int \<Rightarrow> real list option" where
  "dither_cols grayMap w h y x =
     (if x < w then
        (case dither_cell grayMap w h y x of
           None \<Rightarrow> None
         | Some g \<Rightarrow> dither_cols g w h y (x + 1))
      else Some grayMap)"
  by pat_completeness auto
termination
  by (relation "measure (\<lambda>(grayMap, w, h, y, x). nat (w - x))") auto

function dither_rows :: "real list \<Rightarrow> int \<Rightarrow> int \<Rightarrow> int \<Rightarrow> real list option" where
  "dither_rows grayMap w h y =
     (if y < h then
        (case dither_cols grayMap w h y 0 of
           None \<Rightarrow> None
         | Some g \<Rightarrow> dither_rows g w h (y + 1))
      else Some grayMap)"
  by pat_completeness auto
termination
  by (relation "measure (\<lambda>(grayMap, w, h, y). nat (h - y))") auto

definition floydSteinbergDither :: "real list \<Rightarrow> int \<Rightarrow> int \<Rightarrow> real list option" where
  "floydSteinbergDither grayMap w h = dither_rows grayMap w h 0"

text \<open>
  The flat index of the cell \<open>(x, y)\<close>, and the index of the southwest write of the
  step at \<open>(x, y)\<close>, as \<^verbatim>\<open>floydSteinbergDither\<close> computes them.
\<close>

definition cell_index :: "int \<Rightarrow> int \<Rightarrow> int \<Rightarrow> int" where
  "cell_index w y x = y * w + x"

definition southwest_index :: "int \<Rightarrow> int \<Rightarrow> int \<Rightarrow> int" where
  "southwest_index w y x = (y + 1) * w + x - 1"

text \<open>
  The step as the specification words it (section 4.4), to compare the code with: the
  same quantization, and each of the four neighbours receives its share only if it lies
  inside \<open>[0, w) \<times> [0, h)\<close>.
\<close>

definition inside :: "int \<Rightarrow> int \<Rightarrow> int \<Rightarrow> int \<Rightarrow> bool" where
  "inside w h x y \<longleftrightarrow> 0 \<le> x \<and> x < w \<and> 0 \<le> y \<and> y < h"

definition spec_dither_cell :: "real list \<Rightarrow> int \<Rightarrow> int \<Rightarrow> int \<Rightarrow> int \<Rightarrow> real list option" where
  "spec_dither_cell grayMap w h y x = do {
     orig \<leftarrow> grid_get grayMap (y * w + x);
     let new = (if orig \<ge> 0.5 then 1.0 else 0.0);
     g \<leftarrow> grid_put grayMap (y * w + x) new;
     let quantError = orig - new;
     g \<leftarrow> (if inside w h (x + 1) y
          then grid_add g (y * w + (x + 1)) (quantError * 7 / 16) else Some g);
     g \<leftarrow> (if inside w h (x - 1) (y + 1)
          then grid_add g ((y + 1) * w + (x - 1)) (quantError * 3 / 16) else Some g);
     g \<leftarrow> (if inside w h x (y + 1)
          then grid_add g ((y + 1) * w + x) (quantError * 5 / 16) else Some g);
     if inside w h (x + 1) (y + 1)
     then grid_add g ((y + 1) * w + (x + 1)) (quantError * 1 / 16) else Some g
   }"

text \<open>
  Two small sources: 2 by 2 with luminances 64 and 96 in the top row, and 1 by 2 with
  luminance 128 at the top; the rest is black.
\<close>

definition img_2x2 :: Image where
  "img_2x2 = \<lparr>MinX = 0, MinY = 0, MaxX = 2, MaxY = 2,
               GrayAt = (\<lambda>x y. if y = 0 then (if x = 0 then 64 else 96) else 0)\<rparr>"

definition img_1x2 :: Image where
  "img_1x2 = \<lparr>MinX = 0, MinY = 0, MaxX = 1, MaxY = 2,
               GrayAt = (\<lambda>x y. if y = 0 then 128 else 0)\<rparr>"

text \<open>\<^verbatim>\<open>fillByGrayMap\<close>\<close>

function fill_cols :: "real list \<Rightarrow> int \<Rightarrow> int \<Rightarrow> int \<Rightarrow> Bitmap \<Rightarrow> Bitmap option" where
  "fill_cols src w y x dst =
     (if x < w then
        (case grid_get src (y * w + x) of
           None \<Rightarrow> None
         | Some v \<Rightarrow>
             let white = v > 0.5 in
             (case Set dst (word_of_int x) (word_of_int y) (\<not> white) of
                None \<Rightarrow> None
              | Some dst' \<Rightarrow> fill_cols src w y (x + 1) dst'))
      else Some dst)"
  by pat_completeness auto
termination
  by (relation "measure (\<lambda>(src, w, y, x, dst). nat (w - x))") auto

function fill_rows :: "real list \<Rightarrow> int \<Rightarrow> int \<Rightarrow> int \<Rightarrow> Bitmap \<Rightarrow> Bitmap option" where
  "fill_rows src w h y dst =
     (if y < h then
        (case fill_cols src w y 0 dst of
           None \<Rightarrow> None
         | Some dst' \<Rightarrow> fill_rows src w h (y + 1) dst')
      else Some dst)"
  by pat_completeness auto
termination
  by (relation "measure (\<lambda>(src, w, h, y, dst). nat (h - y))") auto

definition fillByGrayMap :: "real list \<Rightarrow> Bitmap \<Rightarrow> int \<Rightarrow> int \<Rightarrow> Bitmap option" where
  "fillByGrayMap src dst w h = fill_rows src w h 0 dst"

text \<open>The flag \<^verbatim>\<open>fillByGrayMap\<close> passes to \<^verbatim>\<open>Set\<close> for the pixel \<open>(x, y)\<close>.\<close>

definition dark :: "real list \<Rightarrow> int \<Rightarrow> int \<Rightarrow> int \<Rightarrow> bool" where
  "dark g w x y \<longleftrightarrow> \<not> g ! nat (y * w + x) > 0.5"

definition ByDither :: "Image \<Rightarrow> Bitmap option" where
  "ByDither src =
     (case createFromImageSize src of (bmp, w, h) \<Rightarrow> do {
        grayMap \<leftarrow> floatGrayMap src w h;
        grayMap \<leftarrow> floydSteinbergDither grayMap w h;
        fillByGrayMap grayMap bmp w h
      })"

declare thr_cols.simps [simp del] thr_rows.simps [simp del]
declare set_cols.simps [simp del] set_rows.simps [simp del]
declare gray_cols.simps [simp del] gray_rows.simps [simp del]
declare dither_cols.simps [simp del] dither_rows.simps [simp del]
declare fill_cols.simps [simp del] fill_rows.simps [simp del]

section \<open>Pixels: \<^verbatim>\<open>Get\<close> and \<^verbatim>\<open>Set\<close>\<close>

lemma get_bit: "(drop_bit n (b::u8) AND 1 = 1) \<longleftrightarrow> bit b n"
  by (simp add: and_one_eq bit_iff_odd_drop_bit one_and_eq mod2_eq_if)

lemma ff_u8: "(0xFF::u8) = -1"
  by simp

lemma u8_div8: "unat ((x::u8) div 8) = unat x div 8"
  by (simp add: unat_div)

lemma u8_mod8: "unat ((x::u8) mod 8) = unat x mod 8"
  by (simp add: unat_mod)

lemma stride_bound: "x < w \<Longrightarrow> unat x div 8 < stride w"
  unfolding stride_def by (simp add: word_less_nat_alt)

lemma wf_row:
  "wf_Bitmap img \<Longrightarrow> i < unat (Height img) \<Longrightarrow> length (PixelRows img ! i) = stride (Width img)"
  by (simp add: wf_Bitmap_def list_all_length)

lemma wf_Create: "wf_Bitmap (Create w h)"
  by (simp add: wf_Bitmap_def Create_def list_all_length)

lemma Get_out: "x \<ge> Width img \<or> y \<ge> Height img \<Longrightarrow> Get img x y = Some False"
  by (simp add: Get_def)

lemma Get_in:
  assumes "wf_Bitmap img" "x < Width img" "y < Height img"
  shows "Get img x y = Some (pix img x y)"
proof -
  have r: "\<not> (Width img \<le> x \<or> Height img \<le> y)"
    using assms by (simp add: not_le)
  have ly: "unat y < length (PixelRows img)"
    using assms by (simp add: wf_Bitmap_def word_less_nat_alt)
  have lx: "unat x div 8 < length (PixelRows img ! unat y)"
    using assms by (simp add: wf_row stride_bound word_less_nat_alt)
  show ?thesis
    unfolding Get_def Let_def using r ly lx
    by (simp add: get_bit u8_div8 u8_mod8 pix_def)
qed

lemma Set_out: "x \<ge> Width img \<or> y \<ge> Height img \<Longrightarrow> Set img x y b = Some img"
  by (simp add: Set_def)

lemma bit_set_bit_u8:
  "n < 8 \<Longrightarrow> bit (set_bit_u8 old n b) m \<longleftrightarrow> (if m = n then b else bit old m)"
  unfolding set_bit_u8_def ff_u8
  by (auto simp add: bit_simps dest: bit_imp_le_length)

lemma Set_in:
  assumes "wf_Bitmap img" "x < Width img" "y < Height img"
  shows "Set img x y b =
    Some (img\<lparr>PixelRows := (PixelRows img)[unat y :=
      (PixelRows img ! unat y)[unat x div 8 :=
        set_bit_u8 (PixelRows img ! unat y ! (unat x div 8)) (unat x mod 8) b]]\<rparr>)"
proof -
  have r: "\<not> (Width img \<le> x \<or> Height img \<le> y)"
    using assms by (simp add: not_le)
  have ly: "unat y < length (PixelRows img)"
    using assms by (simp add: wf_Bitmap_def word_less_nat_alt)
  have lx: "unat x div 8 < length (PixelRows img ! unat y)"
    using assms by (simp add: wf_row stride_bound word_less_nat_alt)
  show ?thesis
    unfolding Set_def Let_def set_bit_u8_def using r ly lx
    by (simp add: u8_div8 u8_mod8)
qed

lemma Set_total: "wf_Bitmap img \<Longrightarrow> \<exists>img'. Set img x y b = Some img'"
  by (cases "x < Width img \<and> y < Height img") (auto simp add: Set_in Set_out not_less)

lemma Set_keeps:
  assumes "wf_Bitmap img" "Set img x y b = Some img'"
  shows "wf_Bitmap img' \<and> Width img' = Width img \<and> Height img' = Height img"
proof (cases "x < Width img \<and> y < Height img")
  case True
  then have "img' = img\<lparr>PixelRows := (PixelRows img)[unat y :=
      (PixelRows img ! unat y)[unat x div 8 :=
        set_bit_u8 (PixelRows img ! unat y ! (unat x div 8)) (unat x mod 8) b]]\<rparr>"
    using assms by (simp add: Set_in)
  moreover have "unat y < length (PixelRows img)"
    using True assms(1) by (simp add: wf_Bitmap_def word_less_nat_alt)
  ultimately show ?thesis
    using assms(1) by (auto simp add: wf_Bitmap_def list_all_length nth_list_update)
next
  case False
  then show ?thesis
    using assms by (auto simp add: Set_out not_less)
qed

lemma u8_split_eq:
  "unat (x::u8) div 8 = unat x' div 8 \<Longrightarrow> unat x mod 8 = unat x' mod 8 \<Longrightarrow> x = x'"
  by (metis div_mult_mod_eq word_unat_eq_iff)

text \<open>What one \<^verbatim>\<open>Set\<close> does to every pixel of the bitmap.\<close>

lemma pix_Set:
  assumes "wf_Bitmap img" "x < Width img" "y < Height img" "Set img x y b = Some img'"
    "x' < Width img" "y' < Height img"
  shows "pix img' x' y' = (if x' = x \<and> y' = y then b else pix img x' y')"
proof -
  have eq: "img' = img\<lparr>PixelRows := (PixelRows img)[unat y :=
      (PixelRows img ! unat y)[unat x div 8 :=
        set_bit_u8 (PixelRows img ! unat y ! (unat x div 8)) (unat x mod 8) b]]\<rparr>"
    using assms by (simp add: Set_in)
  have ly: "unat y < length (PixelRows img)" "unat y' < length (PixelRows img)"
    using assms by (simp_all add: wf_Bitmap_def word_less_nat_alt)
  have lx: "unat x div 8 < length (PixelRows img ! unat y)"
    using assms by (simp add: wf_row stride_bound word_less_nat_alt)
  have m: "unat x mod 8 < 8"
    by simp
  show ?thesis
  proof (cases "y' = y")
    case False
    then have "unat y' \<noteq> unat y"
      by (simp add: word_unat_eq_iff)
    then show ?thesis
      using False ly by (simp add: eq pix_def)
  next
    case True
    show ?thesis
    proof (cases "unat x' div 8 = unat x div 8")
      case False
      then have "x' \<noteq> x"
        by auto
      then show ?thesis
        using True False ly lx by (simp add: eq pix_def)
    next
      case d: True
      have "x' = x \<longleftrightarrow> unat x' mod 8 = unat x mod 8"
        using d u8_split_eq by auto
      then show ?thesis
        using True d ly lx by (simp add: eq pix_def bit_set_bit_u8 [OF m])
    qed
  qed
qed

text \<open>
  Claim C5. On a bitmap that satisfies the invariant of the data model, for an
  in-range coordinate, \<^verbatim>\<open>Set(x, y, b)\<close> followed by \<^verbatim>\<open>Get(x, y)\<close> returns \<open>b\<close>. On any
  bitmap, for an out-of-range coordinate, \<^verbatim>\<open>Set\<close> returns the bitmap unchanged and
  \<^verbatim>\<open>Get\<close> returns false. On a bitmap that satisfies the invariant neither call
  panics, whatever the coordinate.
\<close>

theorem set_then_get:
  "(wf_Bitmap bmp \<and> x < Width bmp \<and> y < Height bmp \<longrightarrow>
      (\<exists>bmp'. Set bmp x y b = Some bmp' \<and> Get bmp' x y = Some b))
   \<and> (x \<ge> Width bmp \<or> y \<ge> Height bmp \<longrightarrow>
      Set bmp x y b = Some bmp \<and> Get bmp x y = Some False)
   \<and> (wf_Bitmap bmp \<longrightarrow> Set bmp x y b \<noteq> None \<and> Get bmp x y \<noteq> None)"
proof (intro conjI impI)
  assume a: "wf_Bitmap bmp \<and> x < Width bmp \<and> y < Height bmp"
  then obtain bmp' where s: "Set bmp x y b = Some bmp'"
    using Set_total [of bmp] by blast
  have k: "wf_Bitmap bmp'" "Width bmp' = Width bmp" "Height bmp' = Height bmp"
    using Set_keeps [OF _ s] a by simp_all
  have "Get bmp' x y = Some (pix bmp' x y)"
    using a k by (simp add: Get_in)
  moreover have "pix bmp' x y = b"
    using pix_Set [OF _ _ _ s, of x y] a by simp
  ultimately show "\<exists>bmp'. Set bmp x y b = Some bmp' \<and> Get bmp' x y = Some b"
    using s by simp
next
  assume o: "x \<ge> Width bmp \<or> y \<ge> Height bmp"
  show "Set bmp x y b = Some bmp" "Get bmp x y = Some False"
    using Set_out [OF o] Get_out [OF o] by simp_all
next
  assume w: "wf_Bitmap bmp"
  show "Set bmp x y b \<noteq> None"
    using Set_total [OF w, of x y b] by auto
  show "Get bmp x y \<noteq> None"
  proof (cases "x < Width bmp \<and> y < Height bmp")
    case True
    then show ?thesis
      using w by (simp add: Get_in)
  next
    case False
    then have "x \<ge> Width bmp \<or> y \<ge> Height bmp"
      by (auto simp add: not_less)
    then show ?thesis
      by (simp add: Get_out)
  qed
qed

theorem set_then_get_witness:
  "wf_Bitmap (Create 9 2)
   \<and> (8::u8) < Width (Create 9 2) \<and> (1::u8) < Height (Create 9 2)
   \<and> (\<exists>bmp'. Set (Create 9 2) 8 1 True = Some bmp' \<and> Get bmp' 8 1 = Some True)
   \<and> (9::u8) \<ge> Width (Create 9 2)
   \<and> Set (Create 9 2) 9 1 True = Some (Create 9 2) \<and> Get (Create 9 2) 9 1 = Some False
   \<and> Set (Create 9 2) 8 1 True \<noteq> None \<and> Get (Create 9 2) 8 1 \<noteq> None"
proof -
  have w: "wf_Bitmap (Create 9 2)"
    by (rule wf_Create)
  have a: "(8::u8) < Width (Create 9 2) \<and> (1::u8) < Height (Create 9 2)"
    by (simp add: Create_def)
  have b: "(9::u8) \<ge> Width (Create 9 2)"
    by (simp add: Create_def)
  show ?thesis
    using w a b set_then_get [of "Create 9 2" 8 1 True] set_then_get [of "Create 9 2" 9 1 True]
    by blast
qed

section \<open>The codec: \<^verbatim>\<open>Write\<close> and \<^verbatim>\<open>Read\<close>\<close>

lemma ceil_div8: "\<lceil>real n / 8\<rceil> = int ((n + 7) div 8)"
  by linarith

lemma stride_ceiling: "int (stride w) = \<lceil>real (unat w) / 8\<rceil>"
  using ceil_div8 [of "unat w"] by (simp add: stride_def)

lemma write_rows_honest:
  assumes h: "\<And>s p n err s'. wr s p = (n, err, s') \<Longrightarrow> err = None \<Longrightarrow> n = int (length p)"
  shows "snd (fst (write_rows wr rows n s)) = None \<Longrightarrow>
         fst (fst (write_rows wr rows n s)) = n + int (length (concat rows))"
proof (induction rows arbitrary: n s)
  case Nil
  then show ?case by simp
next
  case (Cons row rows)
  obtain n2 err s' where w: "wr s row = (n2, err, s')"
    by (cases "wr s row") auto
  show ?case
  proof (cases err)
    case None
    then have "n2 = int (length row)"
      using h [OF w] by simp
    then show ?thesis
      using Cons w None by simp
  next
    case (Some e)
    then show ?thesis
      using Cons.prems w by simp
  qed
qed

lemma write_rows_buf:
  "write_rows buf_write rows n s = ((n + int (length (concat rows)), None), s @ concat rows)"
  by (induction rows arbitrary: n s) (simp_all add: buf_write_def)

lemma Write_buf: "Write buf_write img s = ((int (length (encode img)), None), s @ encode img)"
  by (simp add: Write_def buf_write_def write_rows_buf encode_def)

lemma length_concat_const:
  "list_all (\<lambda>row. length row = k) rows \<Longrightarrow> length (concat rows) = length rows * k"
  by (induction rows) simp_all

lemma length_concat_wf:
  "wf_Bitmap img \<Longrightarrow> length (concat (PixelRows img)) = unat (Height img) * stride (Width img)"
  using length_concat_const [of "stride (Width img)" "PixelRows img"]
  by (simp add: wf_Bitmap_def)

lemma length_encode:
  "wf_Bitmap img \<Longrightarrow> length (encode img) = 2 + unat (Height img) * stride (Width img)"
  by (simp add: encode_def length_concat_wf)


text \<open>
  Claim C7. For a bitmap that satisfies the invariant, a \<^verbatim>\<open>Write\<close> that returns no error
  returns the count \<open>2 + height * ceil(width / 8)\<close>, on every writer that keeps the
  contract of \<^verbatim>\<open>io.Writer\<close> (no error means all of the slice was written); and on the
  in-memory buffer \<^verbatim>\<open>Write\<close> succeeds and appends exactly that many bytes.
\<close>

theorem Write_size:
  assumes "wf_Bitmap bmp"
  shows "((\<forall>s p. case wr s p of (n, err, s') \<Rightarrow> err = None \<longrightarrow> n = int (length p)) \<longrightarrow>
          snd (fst (Write wr bmp s0)) = None \<longrightarrow>
          fst (fst (Write wr bmp s0)) =
            2 + int (unat (Height bmp)) * \<lceil>real (unat (Width bmp)) / 8\<rceil>)
       \<and> (\<exists>bytes. Write buf_write bmp b0 = ((int (length bytes), None), b0 @ bytes) \<and>
            int (length bytes) = 2 + int (unat (Height bmp)) * \<lceil>real (unat (Width bmp)) / 8\<rceil>)"
proof (intro conjI impI)
  assume honest: "\<forall>s p. case wr s p of (n, err, s') \<Rightarrow> err = None \<longrightarrow> n = int (length p)"
    and ok: "snd (fst (Write wr bmp s0)) = None"
  have h: "\<And>s p n err s'. wr s p = (n, err, s') \<Longrightarrow> err = None \<Longrightarrow> n = int (length p)"
  proof -
    fix s p n err s'
    assume a: "wr s p = (n, err, s')" "err = None"
    from honest have "\<forall>p. case wr s p of (n, err, s') \<Rightarrow> err = None \<longrightarrow> n = int (length p)"
      by (rule spec)
    then have "case wr s p of (n, err, s') \<Rightarrow> err = None \<longrightarrow> n = int (length p)"
      by (rule spec)
    then show "n = int (length p)"
      using a by simp
  qed
  obtain n err s1 where w: "wr s0 [Width bmp, Height bmp] = (n, err, s1)"
    by (cases "wr s0 [Width bmp, Height bmp]") auto
  have e: "err = None"
    using ok w by (cases err) (simp_all add: Write_def)
  then have n: "n = 2"
    using h [OF w] by simp
  have r: "snd (fst (write_rows wr (PixelRows bmp) n s1)) = None"
    using ok w e by (simp add: Write_def)
  have "fst (fst (Write wr bmp s0)) = n + int (length (concat (PixelRows bmp)))"
    using write_rows_honest [OF h r] w e by (simp add: Write_def)
  then show "fst (fst (Write wr bmp s0)) =
      2 + int (unat (Height bmp)) * \<lceil>real (unat (Width bmp)) / 8\<rceil>"
    unfolding stride_ceiling [symmetric] using n assms by (simp add: length_concat_wf)
next
  have "int (length (encode bmp)) = 2 + int (unat (Height bmp)) * \<lceil>real (unat (Width bmp)) / 8\<rceil>"
    unfolding stride_ceiling [symmetric] using assms by (simp add: length_encode)
  then show "\<exists>bytes. Write buf_write bmp b0 = ((int (length bytes), None), b0 @ bytes) \<and>
      int (length bytes) = 2 + int (unat (Height bmp)) * \<lceil>real (unat (Width bmp)) / 8\<rceil>"
    using Write_buf [of bmp b0] by blast
qed

theorem Write_size_witness:
  "wf_Bitmap (Create 9 2)
   \<and> (\<forall>s p. case buf_write s p of (n, err, s') \<Rightarrow> err = None \<longrightarrow> n = int (length p))
   \<and> snd (fst (Write buf_write (Create 9 2) [])) = None
   \<and> fst (fst (Write buf_write (Create 9 2) [])) = 6"
proof -
  have w: "wf_Bitmap (Create 9 2)"
    by (rule wf_Create)
  have h: "\<forall>s p. case buf_write s p of (n, err, s') \<Rightarrow> err = None \<longrightarrow> n = int (length p)"
    by (simp add: buf_write_def)
  have ok: "snd (fst (Write buf_write (Create 9 2) [])) = None"
    by (simp add: Write_buf)
  have c: "2 + int (unat (Height (Create 9 2))) * \<lceil>real (unat (Width (Create 9 2))) / 8\<rceil> = 6"
    by (simp add: Create_def)
  show ?thesis
    using w h ok c Write_size [OF w, of buf_write "[]"] by simp
qed

lemma full_reads_buf: "full_reads buf_read (\<lambda>s. s)"
  by (auto simp add: full_reads_def buf_read_def)

lemma read_into_full:
  assumes "full_reads rd unread" "unread r = row @ rest" "length v = length row"
  shows "\<exists>r'. read_into rd r v = ((row, length row, None), r') \<and> unread r' = rest"
proof -
  obtain bs err r' where rd: "rd r (length v) = (bs, err, r')"
    by (cases "rd r (length v)") auto
  have "length v \<le> length (unread r)"
    using assms by simp
  then have "bs = take (length v) (unread r) \<and> err = None \<and> unread r' = drop (length v) (unread r)"
    using assms(1) rd unfolding full_reads_def by (auto split: prod.splits)
  then show ?thesis
    using assms rd by (simp add: read_into_def)
qed

lemma read_rows_full:
  assumes "full_reads rd unread" "list_all (\<lambda>row. length row = st) rows"
    "unread r = concat rows @ rest"
  shows "\<exists>r'. read_rows rd st (replicate (length rows) (replicate st 0)) r = (Inr rows, r') \<and>
           unread r' = rest"
  using assms(2,3)
proof (induction rows arbitrary: r)
  case Nil
  then show ?case by simp
next
  case (Cons row rows)
  have l: "length (replicate st (0::u8)) = length row"
    using Cons.prems by simp
  obtain r1 where r1: "read_into rd r (replicate st 0) = ((row, length row, None), r1)"
    "unread r1 = concat rows @ rest"
    using read_into_full [OF assms(1) _ l, of r "concat rows @ rest"] Cons.prems by auto
  obtain r2 where "read_rows rd st (replicate (length rows) (replicate st 0)) r1 = (Inr rows, r2)"
    "unread r2 = rest"
    using Cons.IH [OF _ r1(2)] Cons.prems by auto
  then show ?case
    using r1 Cons.prems by simp
qed

lemma Read_encode:
  assumes "wf_Bitmap bmp" "full_reads rd unread" "unread r = encode bmp @ rest"
  shows "\<exists>r'. Read rd r = ((Some bmp, None), r') \<and> unread r' = rest"
proof -
  obtain r1 where hd: "read_into rd r [0, 0] = (([Width bmp, Height bmp], 2, None), r1)"
    "unread r1 = concat (PixelRows bmp) @ rest"
    using read_into_full [OF assms(2), of r "[Width bmp, Height bmp]"
        "concat (PixelRows bmp) @ rest" "[0, 0]"] assms(3)
    by (auto simp add: encode_def)
  obtain r2 where rows:
    "read_rows rd (stride (Width bmp)) (PixelRows (Create (Width bmp) (Height bmp))) r1
       = (Inr (PixelRows bmp), r2)" "unread r2 = rest"
    using assms(1) read_rows_full [OF assms(2) _ hd(2), of "stride (Width bmp)"]
    by (auto simp add: wf_Bitmap_def Create_def)
  have "Read rd r = ((Some bmp, None), r2)"
    by (simp add: Read_def hd rows Let_def) (simp add: Create_def)
  then show ?thesis
    using rows(2) by blast
qed

text \<open>
  Claim C1, as the code has it. \<^verbatim>\<open>Read\<close> calls the reader once for the header and
  once for each row. For every bitmap that satisfies the invariant, with any bit
  contents: \<^verbatim>\<open>Write\<close> into an in-memory buffer succeeds, and \<^verbatim>\<open>Read\<close> from a stream
  that holds the bytes written and serves every read in full succeeds; the bitmap
  read has the same width and height and the same \<^verbatim>\<open>Get\<close> at every in-range
  coordinate.
\<close>

theorem Write_then_Read:
  assumes "wf_Bitmap bmp" and "full_reads rd unread"
    and "Write buf_write bmp [] = ((n, err), bytes)" and "unread r = bytes"
  shows "err = None \<and>
         (\<exists>bmp'. fst (Read rd r) = (Some bmp', None) \<and>
            Width bmp' = Width bmp \<and> Height bmp' = Height bmp \<and>
            (\<forall>x y. x < Width bmp \<and> y < Height bmp \<longrightarrow> Get bmp' x y = Get bmp x y))"
proof -
  have w: "err = None" "bytes = encode bmp"
    using assms(3) by (simp_all add: Write_buf)
  obtain r' where "Read rd r = ((Some bmp, None), r')"
    using Read_encode [OF assms(1,2), of r "[]"] assms(4) w by auto
  then show ?thesis
    using w by simp
qed

theorem Write_then_Read_witness:
  "wf_Bitmap \<lparr>Width = 9, Height = 2, PixelRows = [[0x81, 1], [0xFF, 0xFE]]\<rparr>
   \<and> full_reads buf_read (\<lambda>s. s)
   \<and> Write buf_write \<lparr>Width = 9, Height = 2, PixelRows = [[0x81, 1], [0xFF, 0xFE]]\<rparr> []
        = ((6, None), [9, 2, 0x81, 1, 0xFF, 0xFE])
   \<and> (\<exists>bmp'. fst (Read buf_read [9, 2, 0x81, 1, 0xFF, 0xFE]) = (Some bmp', None) \<and>
         (8::u8) < 9 \<and> (1::u8) < 2 \<and>
         Get bmp' 8 1 = Get \<lparr>Width = 9, Height = 2, PixelRows = [[0x81, 1], [0xFF, 0xFE]]\<rparr> 8 1)"
proof -
  let ?B = "\<lparr>Width = 9, Height = 2, PixelRows = [[0x81, 1], [0xFF, 0xFE]]\<rparr>"
  have w: "wf_Bitmap ?B"
    by (simp add: wf_Bitmap_def stride_def)
  have e: "Write buf_write ?B [] = ((6, None), [9, 2, 0x81, 1, 0xFF, 0xFE])"
    by (simp add: Write_def buf_write_def)
  have r: "(8::u8) < Width ?B \<and> (1::u8) < Height ?B"
    by simp
  from Write_then_Read [OF w full_reads_buf e refl] obtain bmp' where
    b: "fst (Read buf_read [9, 2, 0x81, 1, 0xFF, 0xFE]) = (Some bmp', None)" and
    c: "\<forall>x y. x < Width ?B \<and> y < Height ?B \<longrightarrow> Get bmp' x y = Get ?B x y"
    by blast
  from c r have "Get bmp' 8 1 = Get ?B 8 1"
    by blast
  with b w e full_reads_buf show ?thesis
    by auto
qed

text \<open>
  Without the condition on the stream the round trip fails. The bytes written for the
  bitmap of width 0 and height 3 are the header alone; read back through
  \<^verbatim>\<open>bytes.Reader\<close>, the first row read, of no bytes, returns \<^verbatim>\<open>io.EOF\<close> and so does
  \<^verbatim>\<open>Read\<close>. The bytes written for the bitmap of width 8 and height 1, read back one
  byte per call, give the truncated-header error, although all of the data is there.
\<close>

theorem Read_back_needs_full_reads:
  "wf_Bitmap (Create 0 3)
   \<and> Write buf_write (Create 0 3) [] = ((2, None), [0, 3])
   \<and> fst (Read eof_read [0, 3]) = (None, Some (Underlying EOF))
   \<and> wf_Bitmap (Create 8 1)
   \<and> Write buf_write (Create 8 1) [] = ((3, None), [8, 1, 0])
   \<and> fst (Read one_byte_read [8, 1, 0]) = (None, Some HeaderTruncated)"
  by code_simp

text \<open>
  What the loop of \<^verbatim>\<open>Read\<close> returns, told from the results of the row reads: the
  first read that fails the test decides.
\<close>

lemma read_rows_step:
  assumes "rd r (length v) = (bs, None, r')" "st \<le> length (take (length v) bs)"
    and "fst (read_rows rd st vs r') = Inl e"
  shows "fst (read_rows rd st (v # vs) r) = Inl e"
proof -
  obtain x r'' where "read_rows rd st vs r' = (x, r'')"
    by (cases "read_rows rd st vs r'") auto
  then show ?thesis
    using assms by (auto simp add: read_into_def Let_def min_def)
qed

lemma read_rows_error:
  assumes "k < length vs"
    and "\<forall>j<k. row_ok st (reads rd r (map length vs) ! j)"
    and "snd (reads rd r (map length vs) ! k) = Some e"
  shows "fst (read_rows rd st vs r) = Inl (Underlying e)"
  using assms
proof (induction vs arbitrary: k r)
  case Nil
  then show ?case by simp
next
  case (Cons v vs)
  obtain bs err r' where rd: "rd r (length v) = (bs, err, r')"
    by (cases "rd r (length v)") auto
  show ?case
  proof (cases k)
    case 0
    then show ?thesis
      using Cons.prems rd by (simp add: read_into_def Let_def)
  next
    case (Suc k')
    have "row_ok st (take (length v) bs, err)"
      using Cons.prems(2) Suc rd by (auto dest: spec [of _ 0])
    then have ok: "rd r (length v) = (bs, None, r')" "st \<le> length (take (length v) bs)"
      using rd by (simp_all add: row_ok_def)
    have "\<forall>j<k'. row_ok st (reads rd r' (map length vs) ! j)"
      using Cons.prems(2) Suc rd by (auto dest: spec [of _ "Suc j" for j])
    then have "fst (read_rows rd st vs r') = Inl (Underlying e)"
      using Cons.IH [of k' r'] Cons.prems Suc rd by simp
    then show ?thesis
      using ok
      by (rule read_rows_step
            [where rd = rd and r = r and v = v and bs = bs and r' = r', rotated 2])
  qed
qed

lemma read_rows_short:
  assumes "k < length vs"
    and "\<forall>j<k. row_ok st (reads rd r (map length vs) ! j)"
    and "snd (reads rd r (map length vs) ! k) = None"
    and "length (fst (reads rd r (map length vs) ! k)) < st"
  shows "fst (read_rows rd st vs r) = Inl BitmapTruncated"
  using assms
proof (induction vs arbitrary: k r)
  case Nil
  then show ?case by simp
next
  case (Cons v vs)
  obtain bs err r' where rd: "rd r (length v) = (bs, err, r')"
    by (cases "rd r (length v)") auto
  show ?case
  proof (cases k)
    case 0
    then show ?thesis
      using Cons.prems rd by (simp add: read_into_def Let_def)
  next
    case (Suc k')
    have "row_ok st (take (length v) bs, err)"
      using Cons.prems(2) Suc rd by (auto dest: spec [of _ 0])
    then have ok: "rd r (length v) = (bs, None, r')" "st \<le> length (take (length v) bs)"
      using rd by (simp_all add: row_ok_def)
    have "\<forall>j<k'. row_ok st (reads rd r' (map length vs) ! j)"
      using Cons.prems(2) Suc rd by (auto dest: spec [of _ "Suc j" for j])
    then have "fst (read_rows rd st vs r') = Inl BitmapTruncated"
      using Cons.IH [of k' r'] Cons.prems Suc rd by simp
    then show ?thesis
      using ok
      by (rule read_rows_step
            [where rd = rd and r = r and v = v and bs = bs and r' = r', rotated 2])
  qed
qed

lemma Read_all_or_nothing:
  "(\<exists>bmp. fst (Read rd r) = (Some bmp, None)) \<or> (\<exists>e. fst (Read rd r) = (None, Some e))"
  by (auto simp add: Read_def Let_def split: prod.splits option.splits sum.splits)


lemma lengths_Create: "map length (PixelRows (Create w h)) = replicate (unat h) (stride w)"
  by (simp add: Create_def)

text \<open>A bitmap that \<^verbatim>\<open>Read\<close> returns satisfies the invariant.\<close>

lemma read_into_length: "read_into rd r v = ((v', n, err), r') \<Longrightarrow> length v' = length v"
  by (auto simp add: read_into_def Let_def split: prod.splits)

lemma read_rows_lengths:
  "fst (read_rows rd st vs r) = Inr rows \<Longrightarrow> map length rows = map length vs"
proof (induction vs arbitrary: r rows)
  case Nil
  then show ?case by simp
next
  case (Cons v vs)
  obtain v' n err r' where ri: "read_into rd r v = ((v', n, err), r')"
    by (cases "read_into rd r v") auto
  obtain x r'' where rr: "read_rows rd st vs r' = (x, r'')"
    by (cases "read_rows rd st vs r'") auto
  from Cons.prems ri rr obtain vs' where x: "x = Inr vs'" "rows = v' # vs'"
    by (auto split: option.splits if_splits sum.splits)
  have "map length vs' = map length vs"
    using Cons.IH [of r' vs'] rr x by simp
  then show ?case
    using x read_into_length [OF ri] by simp
qed

lemma Read_wf:
  assumes "fst (Read rd r) = (Some bmp, None)"
  shows "wf_Bitmap bmp"
proof -
  obtain header n err r1 where h: "read_into rd r [0, 0] = ((header, n, err), r1)"
    by (cases "read_into rd r [0, 0]") auto
  let ?c = "Create (header ! 0) (header ! 1)"
  obtain x r2 where rr: "read_rows rd (stride (header ! 0)) (PixelRows ?c) r1 = (x, r2)"
    by (cases "read_rows rd (stride (header ! 0)) (PixelRows ?c) r1") auto
  from assms h rr obtain rows where x: "x = Inr rows" "bmp = ?c\<lparr>PixelRows := rows\<rparr>"
    by (auto simp add: Read_def Let_def split: option.splits if_splits sum.splits)
  have "map length rows = replicate (unat (header ! 1)) (stride (header ! 0))"
    using read_rows_lengths [of rd "stride (header ! 0)" "PixelRows ?c" r1 rows] rr x
    by (simp add: lengths_Create)
  then have "length rows = unat (header ! 1) \<and> (\<forall>row \<in> set rows. length row = stride (header ! 0))"
    by (metis in_set_replicate length_map length_replicate imageI set_map)
  then show ?thesis
    using x by (simp add: wf_Bitmap_def Create_def list_all_iff)
qed

lemma Read_rows_Inl:
  assumes "read_into rd r [0, 0] = ((header, 2, None), r1)"
    and "fst (read_rows rd (stride (header ! 0)) (PixelRows (Create (header ! 0) (header ! 1))) r1)
         = Inl e"
  shows "fst (Read rd r) = (None, Some e)"
proof -
  obtain x r2 where
    "read_rows rd (stride (header ! 0)) (PixelRows (Create (header ! 0) (header ! 1))) r1 = (x, r2)"
    by (cases "read_rows rd (stride (header ! 0)) (PixelRows (Create (header ! 0) (header ! 1))) r1")
      auto
  then show ?thesis
    using assms by (simp add: Read_def Let_def)
qed

text \<open>
  Claim C4, as the code has it. \<^verbatim>\<open>Read\<close> looks at the error of a read before it looks
  at the count. An error returned by the header read, or by the first row read that
  does not deliver a full row, is returned unchanged. A header read that returns no
  error and fewer than 2 bytes gives the truncated-header error; a row read that
  returns no error and fewer than \<open>stride\<close> bytes gives the truncated-body error. Whenever
  \<^verbatim>\<open>Read\<close> returns an error, it returns no bitmap.
\<close>

theorem Read_failures:
  assumes hdr: "read_into rd r [0, 0] = ((header, n, err), r1)"
  shows "(\<forall>e. err = Some e \<longrightarrow> fst (Read rd r) = (None, Some (Underlying e)))
    \<and> (err = None \<and> n < 2 \<longrightarrow> fst (Read rd r) = (None, Some HeaderTruncated))
    \<and> (err = None \<and> n = 2 \<longrightarrow>
         (\<forall>k < unat (header ! 1).
            (\<forall>j<k. row_ok (stride (header ! 0))
               (reads rd r1 (replicate (unat (header ! 1)) (stride (header ! 0))) ! j)) \<longrightarrow>
            (\<forall>e. snd (reads rd r1 (replicate (unat (header ! 1)) (stride (header ! 0))) ! k) = Some e
                \<longrightarrow> fst (Read rd r) = (None, Some (Underlying e))) \<and>
            (snd (reads rd r1 (replicate (unat (header ! 1)) (stride (header ! 0))) ! k) = None \<and>
             length (fst (reads rd r1 (replicate (unat (header ! 1)) (stride (header ! 0))) ! k))
               < stride (header ! 0)
                \<longrightarrow> fst (Read rd r) = (None, Some BitmapTruncated))))
    \<and> (snd (fst (Read rd r)) \<noteq> None \<longrightarrow> fst (fst (Read rd r)) = None)"
proof (intro conjI allI impI)
  fix e
  assume "err = Some e"
  then show "fst (Read rd r) = (None, Some (Underlying e))"
    using hdr by (simp add: Read_def)
next
  assume "err = None \<and> n < 2"
  then show "fst (Read rd r) = (None, Some HeaderTruncated)"
    using hdr by (simp add: Read_def)
next
  fix k e
  let ?w = "header ! 0" and ?h = "header ! 1"
  let ?vs = "PixelRows (Create ?w ?h)"
  assume ok: "err = None \<and> n = 2" and k: "k < unat ?h"
    and pre: "\<forall>j<k. row_ok (stride ?w) (reads rd r1 (replicate (unat ?h) (stride ?w)) ! j)"
    and bad: "snd (reads rd r1 (replicate (unat ?h) (stride ?w)) ! k) = Some e"
  have "fst (read_rows rd (stride ?w) ?vs r1) = Inl (Underlying e)"
    using k pre bad
    by (intro read_rows_error [where k = k]) (simp_all add: lengths_Create, simp add: Create_def)
  then show "fst (Read rd r) = (None, Some (Underlying e))"
    using hdr ok by (intro Read_rows_Inl [where header = header and ?r1.0 = r1]) simp_all
next
  fix k
  let ?w = "header ! 0" and ?h = "header ! 1"
  let ?vs = "PixelRows (Create ?w ?h)"
  assume ok: "err = None \<and> n = 2" and k: "k < unat ?h"
    and pre: "\<forall>j<k. row_ok (stride ?w) (reads rd r1 (replicate (unat ?h) (stride ?w)) ! j)"
    and bad: "snd (reads rd r1 (replicate (unat ?h) (stride ?w)) ! k) = None \<and>
              length (fst (reads rd r1 (replicate (unat ?h) (stride ?w)) ! k)) < stride ?w"
  have "fst (read_rows rd (stride ?w) ?vs r1) = Inl BitmapTruncated"
    using k pre bad
    by (intro read_rows_short [where k = k]) (simp_all add: lengths_Create, simp add: Create_def)
  then show "fst (Read rd r) = (None, Some BitmapTruncated)"
    using hdr ok by (intro Read_rows_Inl [where header = header and ?r1.0 = r1]) simp_all
next
  assume "snd (fst (Read rd r)) \<noteq> None"
  then show "fst (fst (Read rd r)) = None"
    using Read_all_or_nothing [of rd r] by auto
qed

theorem Read_failures_witness:
  "read_into buf_read [] [0, 0] = (([0, 0], 0, Some EOF), [])
   \<and> fst (Read buf_read []) = (None, Some (Underlying EOF))
   \<and> read_into buf_read [3] [0, 0] = (([3, 0], 1, None), [])
   \<and> fst (Read buf_read [3]) = (None, Some HeaderTruncated)
   \<and> read_into buf_read [9, 2, 1, 1, 1] [0, 0] = (([9, 2], 2, None), [1, 1, 1])
   \<and> reads buf_read [1, 1, 1] (replicate (unat (2::u8)) (stride 9)) = [([1, 1], None), ([1], None)]
   \<and> row_ok (stride 9) ([1, 1], None::io_error option)
   \<and> fst (Read buf_read [9, 2, 1, 1, 1]) = (None, Some BitmapTruncated)
   \<and> read_into buf_read [9, 2, 1, 1] [0, 0] = (([9, 2], 2, None), [1, 1])
   \<and> reads buf_read [1, 1] (replicate (unat (2::u8)) (stride 9)) = [([1, 1], None), ([], Some EOF)]
   \<and> fst (Read buf_read [9, 2, 1, 1]) = (None, Some (Underlying EOF))
   \<and> snd (fst (Read buf_read [9, 2, 1, 1, 1])) \<noteq> None
   \<and> fst (fst (Read buf_read [9, 2, 1, 1, 1])) = None"
proof -
  have a: "read_into buf_read [] [0, 0] = (([0, 0], 0, Some EOF), [])"
    by (simp add: read_into_def buf_read_def)
  have b: "read_into buf_read [3] [0, 0] = (([3, 0], 1, None), [])"
    by (simp add: read_into_def buf_read_def)
  have c: "read_into buf_read [9, 2, 1, 1, 1] [0, 0] = (([9, 2], 2, None), [1, 1, 1])"
    by (simp add: read_into_def buf_read_def)
  have c': "read_into buf_read [9, 2, 1, 1] [0, 0] = (([9, 2], 2, None), [1, 1])"
    by (simp add: read_into_def buf_read_def)
  have s: "stride 9 = 2"
    by (simp add: stride_def)
  have d: "reads buf_read [1, 1, 1] (replicate (unat (2::u8)) (stride 9))
           = [([1, 1], None), ([1], None)]"
    "reads buf_read [1, 1] (replicate (unat (2::u8)) (stride 9))
           = [([1, 1], None), ([], Some EOF)]"
    by code_simp+
  have e: "row_ok (stride 9) ([1, 1], None::io_error option)"
    by (simp add: row_ok_def s)
  have n: "reads buf_read [1, 1, 1] (replicate 2 2) = [([1, 1], None), ([1], None)]"
    "reads buf_read [1, 1] (replicate 2 2) = [([1, 1], None), ([], Some EOF)]"
    by code_simp+
  have t: "fst (Read buf_read [9, 2, 1, 1, 1]) = (None, Some BitmapTruncated)"
    using Read_failures [OF c, THEN conjunct2, THEN conjunct2, THEN conjunct1, rule_format, of 1]
    by (simp add: n s row_ok_def)
  have u: "fst (Read buf_read [9, 2, 1, 1]) = (None, Some (Underlying EOF))"
    using Read_failures [OF c', THEN conjunct2, THEN conjunct2, THEN conjunct1, rule_format, of 1]
    by (simp add: n s row_ok_def)
  show ?thesis
    using a b c c' d e t u Read_failures [OF a] Read_failures [OF b] Read_failures [OF c]
    by simp
qed

text \<open>
  On an empty stream fewer than 2 header bytes are available, and \<^verbatim>\<open>Read\<close> returns
  \<^verbatim>\<open>io.EOF\<close>, not the truncated-header error; when the stream ends at the end of a
  row, the next row read delivers no byte, and \<^verbatim>\<open>Read\<close> returns \<^verbatim>\<open>io.EOF\<close>, not the
  truncated-body error.
\<close>

theorem Read_empty_is_EOF:
  "fst (Read buf_read []) = (None, Some (Underlying EOF))
   \<and> fst (Read buf_read []) \<noteq> (None, Some HeaderTruncated)
   \<and> fst (Read buf_read [9, 2, 1, 1]) = (None, Some (Underlying EOF))
   \<and> fst (Read buf_read [9, 2, 1, 1]) \<noteq> (None, Some BitmapTruncated)"
  by code_simp

section \<open>Conversion by threshold\<close>

text \<open>\<^verbatim>\<open>uint8(x)\<close> for an \<^verbatim>\<open>int\<close> inside \<open>0..255\<close>.\<close>

lemma uint_u8_of_int: "0 \<le> i \<Longrightarrow> i < 256 \<Longrightarrow> uint (word_of_int i :: u8) = i"
  by (simp add: uint_word_of_int)

lemma unat_u8_of_int: "0 \<le> i \<Longrightarrow> i < 256 \<Longrightarrow> unat (word_of_int i :: u8) = nat i"
  by (simp add: unat_eq_nat_uint uint_u8_of_int)

lemma u8_of_int_less:
  "0 \<le> i \<Longrightarrow> i < 256 \<Longrightarrow> 0 \<le> k \<Longrightarrow> k < 256 \<Longrightarrow>
   (word_of_int i :: u8) < word_of_int k \<longleftrightarrow> i < k"
  by (simp add: word_less_def uint_u8_of_int)

lemma u8_of_int_eq:
  "0 \<le> i \<Longrightarrow> i < 256 \<Longrightarrow> 0 \<le> k \<Longrightarrow> k < 256 \<Longrightarrow>
   (word_of_int i :: u8) = word_of_int k \<longleftrightarrow> i = k"
  by (metis uint_u8_of_int)

lemma set_cols_spec:
  assumes "wf_Bitmap bmp" "Width bmp = word_of_int w" "Height bmp = word_of_int h"
    and "0 \<le> w" "w \<le> 255" "0 \<le> h" "h \<le> 255" "0 \<le> y" "y < h" "0 \<le> x"
  shows "\<exists>bmp'. set_cols f w y x bmp = Some bmp' \<and> wf_Bitmap bmp' \<and>
           Width bmp' = Width bmp \<and> Height bmp' = Height bmp \<and>
           (\<forall>i j. 0 \<le> i \<and> i < w \<and> 0 \<le> j \<and> j < h \<longrightarrow>
              pix bmp' (word_of_int i) (word_of_int j) =
                (if j = y \<and> x \<le> i then f i j else pix bmp (word_of_int i) (word_of_int j)))"
  using assms
proof (induction f w y x bmp rule: set_cols.induct)
  case (1 f w y x bmp)
  show ?case
  proof (cases "x < w")
    case False
    then show ?thesis
      using "1.prems"(1) by (subst set_cols.simps) auto
  next
    case True
    have xr: "(word_of_int x :: u8) < Width bmp"
      using True 1 by (simp add: u8_of_int_less)
    have yr: "(word_of_int y :: u8) < Height bmp"
      using 1 by (simp add: u8_of_int_less)
    obtain b1 where s: "Set bmp (word_of_int x) (word_of_int y) (f x y) = Some b1"
      using Set_total [OF \<open>wf_Bitmap bmp\<close>] by blast
    have k: "wf_Bitmap b1" "Width b1 = Width bmp" "Height b1 = Height bmp"
      using Set_keeps [OF \<open>wf_Bitmap bmp\<close> s] by simp_all
    have p1: "pix b1 (word_of_int i) (word_of_int j) =
               (if i = x \<and> j = y then f x y else pix bmp (word_of_int i) (word_of_int j))"
      if "0 \<le> i" "i < w" "0 \<le> j" "j < h" for i j
    proof -
      have "(word_of_int i :: u8) < Width bmp" "(word_of_int j :: u8) < Height bmp"
        using that 1 by (simp_all add: u8_of_int_less)
      moreover have "(word_of_int i :: u8) = word_of_int x \<longleftrightarrow> i = x"
        using that True 1 by (simp add: u8_of_int_eq)
      moreover have "(word_of_int j :: u8) = word_of_int y \<longleftrightarrow> j = y"
        using that 1 by (simp add: u8_of_int_eq)
      ultimately show ?thesis
        using pix_Set [OF \<open>wf_Bitmap bmp\<close> xr yr s, of "word_of_int i" "word_of_int j"] by simp
    qed
    obtain b2 where r: "set_cols f w y (x + 1) b1 = Some b2" "wf_Bitmap b2"
      "Width b2 = Width b1" "Height b2 = Height b1"
      and p2: "\<forall>i j. 0 \<le> i \<and> i < w \<and> 0 \<le> j \<and> j < h \<longrightarrow>
              pix b2 (word_of_int i) (word_of_int j) =
                (if j = y \<and> x + 1 \<le> i then f i j else pix b1 (word_of_int i) (word_of_int j))"
      using "1.IH" [OF True s k(1)] k 1(3-) by auto
    have "set_cols f w y x bmp = Some b2"
      using True s r(1) by (subst set_cols.simps) simp
    moreover have "pix b2 (word_of_int i) (word_of_int j) =
        (if j = y \<and> x \<le> i then f i j else pix bmp (word_of_int i) (word_of_int j))"
      if "0 \<le> i \<and> i < w \<and> 0 \<le> j \<and> j < h" for i j
      using p2 [rule_format, OF that] p1 [of i j] that by auto
    ultimately show ?thesis
      using r k by auto
  qed
qed

lemma set_rows_spec:
  assumes "wf_Bitmap bmp" "Width bmp = word_of_int w" "Height bmp = word_of_int h"
    and "0 \<le> w" "w \<le> 255" "0 \<le> h" "h \<le> 255" "0 \<le> y"
  shows "\<exists>bmp'. set_rows f w h y bmp = Some bmp' \<and> wf_Bitmap bmp' \<and>
           Width bmp' = Width bmp \<and> Height bmp' = Height bmp \<and>
           (\<forall>i j. 0 \<le> i \<and> i < w \<and> 0 \<le> j \<and> j < h \<longrightarrow>
              pix bmp' (word_of_int i) (word_of_int j) =
                (if y \<le> j then f i j else pix bmp (word_of_int i) (word_of_int j)))"
  using assms
proof (induction f w h y bmp rule: set_rows.induct)
  case (1 f w h y bmp)
  show ?case
  proof (cases "y < h")
    case False
    then show ?thesis
      using "1.prems"(1) by (subst set_rows.simps) auto
  next
    case True
    obtain b1 where c: "set_cols f w y 0 bmp = Some b1" "wf_Bitmap b1"
      "Width b1 = Width bmp" "Height b1 = Height bmp"
      and p1: "\<forall>i j. 0 \<le> i \<and> i < w \<and> 0 \<le> j \<and> j < h \<longrightarrow>
              pix b1 (word_of_int i) (word_of_int j) =
                (if j = y \<and> 0 \<le> i then f i j else pix bmp (word_of_int i) (word_of_int j))"
      using set_cols_spec [of bmp w h y 0 f] True 1(2-) by auto
    obtain b2 where r: "set_rows f w h (y + 1) b1 = Some b2" "wf_Bitmap b2"
      "Width b2 = Width b1" "Height b2 = Height b1"
      and p2: "\<forall>i j. 0 \<le> i \<and> i < w \<and> 0 \<le> j \<and> j < h \<longrightarrow>
              pix b2 (word_of_int i) (word_of_int j) =
                (if y + 1 \<le> j then f i j else pix b1 (word_of_int i) (word_of_int j))"
      using "1.IH" [OF True c(1) c(2)] c 1(3-) by auto
    have "set_rows f w h y bmp = Some b2"
      using True c(1) r(1) by (subst set_rows.simps) simp
    moreover have "pix b2 (word_of_int i) (word_of_int j) =
        (if y \<le> j then f i j else pix bmp (word_of_int i) (word_of_int j))"
      if "0 \<le> i \<and> i < w \<and> 0 \<le> j \<and> j < h" for i j
      using p2 [rule_format, OF that] p1 [rule_format, OF that] that by auto
    ultimately show ?thesis
      using r c by auto
  qed
qed

lemma thr_cols_eq:
  "thr_cols src t w y x bmp = set_cols (\<lambda>x y. lum_at src x y < t) w y x bmp"
proof (induction src t w y x bmp rule: thr_cols.induct)
  case (1 src t w y x bmp)
  show ?case
  proof (cases "x < w")
    case False
    then show ?thesis
      by (subst thr_cols.simps, subst set_cols.simps) simp
  next
    case True
    show ?thesis
    proof (cases "Set bmp (word_of_int x) (word_of_int y) (lum_at src x y < t)")
      case None
      then show ?thesis
        using True by (subst thr_cols.simps, subst set_cols.simps) (simp add: lum_at_def)
    next
      case (Some b1)
      then show ?thesis
        using True "1.IH" [OF True refl, of b1]
        by (subst thr_cols.simps, subst set_cols.simps) (simp add: lum_at_def)
    qed
  qed
qed

lemma thr_rows_eq:
  "thr_rows src t w h y bmp = set_rows (\<lambda>x y. lum_at src x y < t) w h y bmp"
proof (induction src t w h y bmp rule: thr_rows.induct)
  case (1 src t w h y bmp)
  show ?case
  proof (cases "y < h")
    case False
    then show ?thesis
      by (subst thr_rows.simps, subst set_rows.simps) simp
  next
    case True
    show ?thesis
    proof (cases "set_cols (\<lambda>x y. lum_at src x y < t) w y 0 bmp")
      case None
      then show ?thesis
        using True by (subst thr_rows.simps, subst set_rows.simps) (simp add: thr_cols_eq)
    next
      case (Some b1)
      then show ?thesis
        using True "1.IH" [OF True, of b1]
        by (subst thr_rows.simps, subst set_rows.simps) (simp add: thr_cols_eq)
    qed
  qed
qed

lemma clamp255_range: "0 \<le> clamp255 e \<and> clamp255 e \<le> 255"
  by (simp add: clamp255_def)

lemma createFromImageSize_eq:
  "createFromImageSize src =
     (Create (word_of_int (clamp255 (extent_x src))) (word_of_int (clamp255 (extent_y src))),
      clamp255 (extent_x src), clamp255 (extent_y src))"
  by (simp add: createFromImageSize_def Let_def clamp255_def extent_x_def extent_y_def)

lemma Width_Create: "Width (Create w h) = w" and Height_Create: "Height (Create w h) = h"
  by (simp_all add: Create_def)

text \<open>What \<^verbatim>\<open>ByThreshold\<close> returns, in terms of the unchecked pixel bits.\<close>

lemma ByThreshold_spec:
  "\<exists>bmp. ByThreshold src t = Some bmp \<and> wf_Bitmap bmp \<and>
     Width bmp = word_of_int (clamp255 (extent_x src)) \<and>
     Height bmp = word_of_int (clamp255 (extent_y src)) \<and>
     (\<forall>i j. 0 \<le> i \<and> i < clamp255 (extent_x src) \<and> 0 \<le> j \<and> j < clamp255 (extent_y src) \<longrightarrow>
        pix bmp (word_of_int i) (word_of_int j) = (lum_at src i j < t))"
proof -
  let ?w = "clamp255 (extent_x src)" and ?h = "clamp255 (extent_y src)"
  let ?c = "Create (word_of_int ?w) (word_of_int ?h)"
  have "\<exists>bmp'. set_rows (\<lambda>x y. lum_at src x y < t) ?w ?h 0 ?c = Some bmp' \<and> wf_Bitmap bmp' \<and>
           Width bmp' = Width ?c \<and> Height bmp' = Height ?c \<and>
           (\<forall>i j. 0 \<le> i \<and> i < ?w \<and> 0 \<le> j \<and> j < ?h \<longrightarrow>
              pix bmp' (word_of_int i) (word_of_int j) =
                (if 0 \<le> j then lum_at src i j < t else pix ?c (word_of_int i) (word_of_int j)))"
    using clamp255_range [of "extent_x src"] clamp255_range [of "extent_y src"]
    by (intro set_rows_spec) (simp_all add: wf_Create Width_Create Height_Create)
  then show ?thesis
    by (auto simp add: ByThreshold_def createFromImageSize_eq thr_rows_eq
        Width_Create Height_Create)
qed

text \<open>The same, through \<^verbatim>\<open>Get\<close>, at coordinates of type \<^verbatim>\<open>uint8\<close>.\<close>

lemma in_range_pixel:
  assumes "Width bmp = word_of_int w" "Height bmp = word_of_int h" "0 \<le> w" "w \<le> 255"
    "0 \<le> h" "h \<le> 255" "x < Width bmp" "y < Height bmp"
  shows "0 \<le> uint x \<and> uint x < w \<and> 0 \<le> uint y \<and> uint y < h"
  using assms by (simp add: word_less_def uint_u8_of_int)

lemma ByThreshold_Get:
  "\<exists>bmp. ByThreshold src t = Some bmp \<and>
     Width bmp = word_of_int (clamp255 (extent_x src)) \<and>
     Height bmp = word_of_int (clamp255 (extent_y src)) \<and>
     (\<forall>x y. Get bmp x y =
        Some (x < Width bmp \<and> y < Height bmp \<and> lum_at src (uint x) (uint y) < t))"
proof -
  obtain bmp where b: "ByThreshold src t = Some bmp" "wf_Bitmap bmp"
    "Width bmp = word_of_int (clamp255 (extent_x src))"
    "Height bmp = word_of_int (clamp255 (extent_y src))"
    and p: "\<forall>i j. 0 \<le> i \<and> i < clamp255 (extent_x src) \<and> 0 \<le> j \<and> j < clamp255 (extent_y src) \<longrightarrow>
        pix bmp (word_of_int i) (word_of_int j) = (lum_at src i j < t)"
    using ByThreshold_spec [of src t] by blast
  have "Get bmp x y = Some (x < Width bmp \<and> y < Height bmp \<and> lum_at src (uint x) (uint y) < t)"
    for x y
  proof (cases "x < Width bmp \<and> y < Height bmp")
    case True
    then have "0 \<le> uint x \<and> uint x < clamp255 (extent_x src) \<and>
               0 \<le> uint y \<and> uint y < clamp255 (extent_y src)"
      using in_range_pixel [OF b(3) b(4), of x y]
        clamp255_range [of "extent_x src"] clamp255_range [of "extent_y src"] by simp
    then have "pix bmp x y = (lum_at src (uint x) (uint y) < t)"
      using p [rule_format, of "uint x" "uint y"] by simp
    then show ?thesis
      using True b(2) by (simp add: Get_in)
  next
    case False
    then have o: "x \<ge> Width bmp \<or> y \<ge> Height bmp"
      by (auto simp add: not_less)
    show ?thesis
      using False Get_out [OF o] by auto
  qed
  then show ?thesis
    using b by blast
qed

text \<open>
  Claim C6. For every source image and every threshold, \<^verbatim>\<open>ByThreshold\<close> returns a
  bitmap as wide and as high as the extents of the source, clamped to \<open>0..255\<close>, and
  every pixel \<open>(x, y)\<close> of it is black exactly when the luminance of the source pixel
  at \<open>(x, y)\<close> (relative to the corner of the bounds) is strictly less than the
  threshold; a luminance equal to the threshold gives white.
\<close>

theorem ByThreshold_black_iff:
  "\<exists>bmp. ByThreshold src threshold = Some bmp \<and>
     int (unat (Width bmp)) = max 0 (min 255 (extent_x src)) \<and>
     int (unat (Height bmp)) = max 0 (min 255 (extent_y src)) \<and>
     (\<forall>x y. x < Width bmp \<and> y < Height bmp \<longrightarrow>
        Get bmp x y = Some (lum_at src (uint x) (uint y) < threshold))"
proof -
  obtain bmp where b: "ByThreshold src threshold = Some bmp"
    "Width bmp = word_of_int (clamp255 (extent_x src))"
    "Height bmp = word_of_int (clamp255 (extent_y src))"
    and g: "\<forall>x y. Get bmp x y =
        Some (x < Width bmp \<and> y < Height bmp \<and> lum_at src (uint x) (uint y) < threshold)"
    using ByThreshold_Get [of src threshold] by blast
  have r: "0 \<le> clamp255 (extent_x src)" "clamp255 (extent_x src) < 256"
    "0 \<le> clamp255 (extent_y src)" "clamp255 (extent_y src) < 256"
    using clamp255_range [of "extent_x src"] clamp255_range [of "extent_y src"] by simp_all
  have c: "clamp255 e = max 0 (min 255 e)" for e
    by (simp add: clamp255_def max_def min_def)
  have "int (unat (Width bmp)) = max 0 (min 255 (extent_x src))"
    "int (unat (Height bmp)) = max 0 (min 255 (extent_y src))"
    unfolding c [symmetric] using b r by (simp_all add: unat_u8_of_int)
  moreover have "\<forall>x y. x < Width bmp \<and> y < Height bmp \<longrightarrow>
        Get bmp x y = Some (lum_at src (uint x) (uint y) < threshold)"
    using g by auto
  ultimately show ?thesis
    using b(1) by blast
qed

text \<open>
  Claim C8. For thresholds \<open>t1 \<le> t2\<close> and the same source image, every pixel that
  \<^verbatim>\<open>ByThreshold\<close> makes black for \<open>t1\<close> it makes black for \<open>t2\<close>.
\<close>

theorem ByThreshold_mono:
  assumes "t1 \<le> t2"
  shows "\<exists>b1 b2. ByThreshold src t1 = Some b1 \<and> ByThreshold src t2 = Some b2 \<and>
           (\<forall>x y. Get b1 x y = Some True \<longrightarrow> Get b2 x y = Some True)"
proof -
  obtain b1 where b1: "ByThreshold src t1 = Some b1"
    "Width b1 = word_of_int (clamp255 (extent_x src))"
    "Height b1 = word_of_int (clamp255 (extent_y src))"
    and g1: "\<forall>x y. Get b1 x y =
        Some (x < Width b1 \<and> y < Height b1 \<and> lum_at src (uint x) (uint y) < t1)"
    using ByThreshold_Get [of src t1] by blast
  obtain b2 where b2: "ByThreshold src t2 = Some b2"
    "Width b2 = word_of_int (clamp255 (extent_x src))"
    "Height b2 = word_of_int (clamp255 (extent_y src))"
    and g2: "\<forall>x y. Get b2 x y =
        Some (x < Width b2 \<and> y < Height b2 \<and> lum_at src (uint x) (uint y) < t2)"
    using ByThreshold_Get [of src t2] by blast
  have "Get b2 x y = Some True" if "Get b1 x y = Some True" for x y
  proof -
    have "x < Width b1 \<and> y < Height b1 \<and> lum_at src (uint x) (uint y) < t1"
      using that g1 by simp
    then have "x < Width b2 \<and> y < Height b2 \<and> lum_at src (uint x) (uint y) < t2"
      using assms b1 b2 by auto
    then show ?thesis
      using g2 by simp
  qed
  then show ?thesis
    using b1(1) b2(1) by blast
qed

theorem ByThreshold_black_iff_witness:
  "ByThreshold img_2x1 100 = Some \<lparr>Width = 2, Height = 1, PixelRows = [[1]]\<rparr>
   \<and> extent_x img_2x1 = 2 \<and> extent_y img_2x1 = 1
   \<and> int (unat (Width \<lparr>Width = 2, Height = 1, PixelRows = [[1]]\<rparr>))
        = max 0 (min 255 (extent_x img_2x1))
   \<and> int (unat (Height \<lparr>Width = 2, Height = 1, PixelRows = [[1]]\<rparr>))
        = max 0 (min 255 (extent_y img_2x1))
   \<and> (0::u8) < 2 \<and> (1::u8) < 2 \<and> (0::u8) < 1
   \<and> Get \<lparr>Width = 2, Height = 1, PixelRows = [[1]]\<rparr> 0 0 = Some (lum_at img_2x1 0 0 < 100)
   \<and> Get \<lparr>Width = 2, Height = 1, PixelRows = [[1]]\<rparr> 1 0 = Some (lum_at img_2x1 1 0 < 100)
   \<and> lum_at img_2x1 0 0 = 99 \<and> lum_at img_2x1 1 0 = 100"
proof -
  let ?B = "\<lparr>Width = 2, Height = 1, PixelRows = [[1]]\<rparr>"
  have e: "ByThreshold img_2x1 100 = Some ?B"
    by code_simp
  have l: "lum_at img_2x1 0 0 = 99 \<and> lum_at img_2x1 1 0 = 100"
    by code_simp
  have x: "extent_x img_2x1 = 2 \<and> extent_y img_2x1 = 1"
    by (simp add: extent_x_def extent_y_def img_2x1_def wrap64_def)
  from ByThreshold_black_iff [of img_2x1 100] e
  have s: "int (unat (Width ?B)) = max 0 (min 255 (extent_x img_2x1))"
    "int (unat (Height ?B)) = max 0 (min 255 (extent_y img_2x1))"
    and g: "\<forall>x y. x < Width ?B \<and> y < Height ?B \<longrightarrow>
          Get ?B x y = Some (lum_at img_2x1 (uint x) (uint y) < 100)"
    by simp_all
  from g have "Get ?B 0 0 = Some (lum_at img_2x1 (uint (0::u8)) (uint (0::u8)) < 100)"
    and "Get ?B 1 0 = Some (lum_at img_2x1 (uint (1::u8)) (uint (0::u8)) < 100)"
    by simp_all
  then show ?thesis
    using e l x s by simp
qed

theorem ByThreshold_mono_witness:
  "(100::u8) \<le> 101
   \<and> (\<exists>b1 b2. ByThreshold img_2x1 100 = Some b1 \<and> ByThreshold img_2x1 101 = Some b2 \<and>
         Get b1 0 0 = Some True \<and> Get b2 0 0 = Some True)"
proof -
  have t: "(100::u8) \<le> 101"
    by simp
  have e: "ByThreshold img_2x1 100 = Some \<lparr>Width = 2, Height = 1, PixelRows = [[1]]\<rparr>"
    by code_simp
  have g: "Get \<lparr>Width = 2, Height = 1, PixelRows = [[1]]\<rparr> 0 0 = Some True"
    by code_simp
  from ByThreshold_mono [OF t, of img_2x1] obtain b1 b2 where
    b: "ByThreshold img_2x1 100 = Some b1" "ByThreshold img_2x1 101 = Some b2"
    and m: "\<forall>x y. Get b1 x y = Some True \<longrightarrow> Get b2 x y = Some True"
    by blast
  have "Get b1 0 0 = Some True"
    using b(1) e g by simp
  then have "Get b2 0 0 = Some True"
    using m by blast
  then show ?thesis
    using t b \<open>Get b1 0 0 = Some True\<close> by blast
qed

section \<open>Dithering\<close>

text \<open>Every cell of a \<open>w\<close> by \<open>h\<close> grid has its flat index inside the grid.\<close>

lemma idx_bound:
  fixes w h x y :: int
  assumes "0 \<le> x" "x < w" "0 \<le> y" "y < h"
  shows "0 \<le> y * w + x \<and> y * w + x < w * h"
proof -
  have "y * w + x < (y + 1) * w"
    using assms by (simp add: algebra_simps)
  also have "(y + 1) * w \<le> h * w"
    using assms by (intro mult_right_mono) simp_all
  finally have "y * w + x < w * h"
    by (simp add: mult.commute)
  moreover have "0 \<le> y * w"
    using assms by simp
  ultimately show ?thesis
    using assms by simp
qed

text \<open>The five indices one step of the inner loop touches.\<close>

lemma dither_cell_total:
  assumes len: "int (length g) = w * h" and r: "0 \<le> x" "x < w" "0 \<le> y" "y < h"
  shows "\<exists>g'. dither_cell g w h y x = Some g' \<and> length g' = length g"
proof -
  have c: "0 \<le> y * w + x \<and> y * w + x < int (length g)"
    using idx_bound [OF r] len by simp
  have e: "0 \<le> (y + 0) * w + x + 1 \<and> (y + 0) * w + x + 1 < int (length g)" if "x \<noteq> w - 1"
    using idx_bound [of "x + 1" w y h] r that len by (simp add: algebra_simps)
  have s: "0 \<le> (y + 1) * w + x + 0 \<and> (y + 1) * w + x + 0 < int (length g)" if "y \<noteq> h - 1"
    using idx_bound [of x w "y + 1" h] r that len by (simp add: algebra_simps)
  have sw: "0 \<le> (y + 1) * w + x - 1 \<and> (y + 1) * w + x - 1 < int (length g)" if "y \<noteq> h - 1"
  proof -
    have "(y + 1) * w + x - 1 = y * w + (w + x - 1)"
      by (simp add: algebra_simps)
    moreover have "0 \<le> y * w"
      using r by simp
    ultimately have "0 \<le> (y + 1) * w + x - 1"
      using r by linarith
    then show ?thesis
      using s [OF that] by simp
  qed
  have se: "0 \<le> (y + 1) * w + x + 1 \<and> (y + 1) * w + x + 1 < int (length g)"
    if "y \<noteq> h - 1" "x \<noteq> w - 1"
    using idx_bound [of "x + 1" w "y + 1" h] r that len by (simp add: algebra_simps)
  show ?thesis
  proof (cases "y \<noteq> h - 1")
    case False
    then show ?thesis
      using c e
      by (cases "x \<noteq> w - 1")
        (simp_all add: dither_cell_def grid_get_def grid_put_def grid_add_def Let_def)
  next
    case True
    then show ?thesis
      using c e s [OF True] sw [OF True] se [OF True]
      by (cases "x \<noteq> w - 1")
        (simp_all add: dither_cell_def grid_get_def grid_put_def grid_add_def Let_def)
  qed
qed

lemma dither_cols_total:
  assumes "int (length g) = w * h" "0 \<le> x" "0 \<le> y" "y < h"
  shows "\<exists>g'. dither_cols g w h y x = Some g' \<and> length g' = length g"
  using assms
proof (induction g w h y x rule: dither_cols.induct)
  case (1 g w h y x)
  show ?case
  proof (cases "x < w")
    case False
    then show ?thesis
      by (subst dither_cols.simps) simp
  next
    case True
    obtain g1 where c: "dither_cell g w h y x = Some g1" "length g1 = length g"
      using dither_cell_total [of g w h x y] True "1.prems" by blast
    obtain g2 where "dither_cols g1 w h y (x + 1) = Some g2" "length g2 = length g1"
      using "1.IH" [OF True c(1)] c(2) "1.prems" by auto
    then show ?thesis
      using True c by (subst dither_cols.simps) simp
  qed
qed

lemma dither_rows_total:
  assumes "int (length g) = w * h" "0 \<le> y"
  shows "\<exists>g'. dither_rows g w h y = Some g' \<and> length g' = length g"
  using assms
proof (induction g w h y rule: dither_rows.induct)
  case (1 g w h y)
  show ?case
  proof (cases "y < h")
    case False
    then show ?thesis
      by (subst dither_rows.simps) simp
  next
    case True
    obtain g1 where c: "dither_cols g w h y 0 = Some g1" "length g1 = length g"
      using dither_cols_total [of g w h 0 y] True "1.prems" by auto
    obtain g2 where "dither_rows g1 w h (y + 1) = Some g2" "length g2 = length g1"
      using "1.IH" [OF True c(1)] c(2) "1.prems" by auto
    then show ?thesis
      using True c by (subst dither_rows.simps) simp
  qed
qed

lemma gray_cols_total:
  assumes "int (length g) = w * h" "0 \<le> x" "0 \<le> y" "y < h"
  shows "\<exists>g'. gray_cols src w y x g = Some g' \<and> length g' = length g"
  using assms
proof (induction src w y x g rule: gray_cols.induct)
  case (1 src w y x g)
  show ?case
  proof (cases "x < w")
    case False
    then show ?thesis
      by (subst gray_cols.simps) simp
  next
    case True
    have "0 \<le> y * w + x \<and> y * w + x < int (length g)"
      using idx_bound [of x w y h] True "1.prems" by simp
    then obtain g1 where
      c: "grid_put g (y * w + x) (real (unat (lum_at src x y)) / 255) = Some g1"
        "length g1 = length g"
      by (simp add: grid_put_def)
    obtain g2 where "gray_cols src w y (x + 1) g1 = Some g2" "length g2 = length g1"
      using "1.IH" [OF True refl, of g1] c "1.prems" by (auto simp add: lum_at_def)
    then show ?thesis
      using True c by (subst gray_cols.simps) (simp add: lum_at_def)
  qed
qed

lemma gray_rows_total:
  assumes "int (length g) = w * h" "0 \<le> y"
  shows "\<exists>g'. gray_rows src w h y g = Some g' \<and> length g' = length g"
  using assms
proof (induction src w h y g rule: gray_rows.induct)
  case (1 src w h y g)
  show ?case
  proof (cases "y < h")
    case False
    then show ?thesis
      by (subst gray_rows.simps) simp
  next
    case True
    obtain g1 where c: "gray_cols src w y 0 g = Some g1" "length g1 = length g"
      using gray_cols_total [of g w h 0 y src] True "1.prems" by auto
    obtain g2 where "gray_rows src w h (y + 1) g1 = Some g2" "length g2 = length g1"
      using "1.IH" [OF True c(1)] c(2) "1.prems" by auto
    then show ?thesis
      using True c by (subst gray_rows.simps) simp
  qed
qed

lemma floatGrayMap_total:
  assumes "0 \<le> w" "0 \<le> h"
  shows "\<exists>g. floatGrayMap src w h = Some g \<and> int (length g) = w * h"
proof -
  have "0 \<le> w * h"
    using assms by simp
  then show ?thesis
    using gray_rows_total [of "replicate (nat (w * h)) 0" w h 0 src]
    by (auto simp add: floatGrayMap_def)
qed

text \<open>The loops read the source only inside the clamped window.\<close>

lemma gray_cols_cong:
  assumes "\<forall>i. x \<le> i \<and> i < w \<longrightarrow> lum_at src i y = lum_at src' i y"
  shows "gray_cols src w y x g = gray_cols src' w y x g"
  using assms
proof (induction src w y x g rule: gray_cols.induct)
  case (1 src w y x g)
  show ?case
  proof (cases "x < w")
    case False
    then show ?thesis
      by (simp add: gray_cols.simps [of src w y x g] gray_cols.simps [of src' w y x g])
  next
    case True
    then have l: "lum_at src x y = lum_at src' x y"
      using "1.prems" by simp
    show ?thesis
    proof (cases "grid_put g (y * w + x) (real (unat (lum_at src x y)) / 255)")
      case None
      then show ?thesis
        using True l
        by (simp add: gray_cols.simps [of src w y x g]
            gray_cols.simps [of src' w y x g]
            lum_at_def)
    next
      case (Some g1)
      have "gray_cols src w y (x + 1) g1 = gray_cols src' w y (x + 1) g1"
        using "1.IH" [OF True refl, of g1] Some "1.prems" by (simp add: lum_at_def)
      then show ?thesis
        using True l Some
        by (simp add: gray_cols.simps [of src w y x g] gray_cols.simps [of src' w y x g] lum_at_def)
    qed
  qed
qed

lemma gray_rows_cong:
  assumes "\<forall>i j. 0 \<le> i \<and> i < w \<and> y \<le> j \<and> j < h \<longrightarrow> lum_at src i j = lum_at src' i j"
  shows "gray_rows src w h y g = gray_rows src' w h y g"
  using assms
proof (induction src w h y g rule: gray_rows.induct)
  case (1 src w h y g)
  show ?case
  proof (cases "y < h")
    case False
    then show ?thesis
      by (simp add: gray_rows.simps [of src w h y g] gray_rows.simps [of src' w h y g])
  next
    case True
    have c: "gray_cols src w y 0 g = gray_cols src' w y 0 g"
      using True "1.prems" by (intro gray_cols_cong) simp
    show ?thesis
    proof (cases "gray_cols src w y 0 g")
      case None
      then have "gray_cols src' w y 0 g = None"
        using c by simp
      then show ?thesis
        using True None
        by (simp add: gray_rows.simps [of src w h y g]
            gray_rows.simps [of src' w h y g])
    next
      case (Some g1)
      have s': "gray_cols src' w y 0 g = Some g1"
        using c Some by simp
      have "gray_rows src w h (y + 1) g1 = gray_rows src' w h (y + 1) g1"
        using "1.IH" [OF True Some] "1.prems" by simp
      then show ?thesis
        using True s' Some
        by (simp add: gray_rows.simps [of src w h y g]
            gray_rows.simps [of src' w h y g])
    qed
  qed
qed

lemma set_cols_cong:
  assumes "\<forall>i. x \<le> i \<and> i < w \<longrightarrow> f i y = f' i y"
  shows "set_cols f w y x bmp = set_cols f' w y x bmp"
  using assms
proof (induction f w y x bmp rule: set_cols.induct)
  case (1 f w y x bmp)
  show ?case
  proof (cases "x < w")
    case False
    then show ?thesis
      by (simp add: set_cols.simps [of f w y x bmp] set_cols.simps [of f' w y x bmp])
  next
    case True
    then have l: "f x y = f' x y"
      using "1.prems" by simp
    show ?thesis
    proof (cases "Set bmp (word_of_int x) (word_of_int y) (f x y)")
      case None
      then show ?thesis
        using True l by (simp add: set_cols.simps [of f w y x bmp] set_cols.simps [of f' w y x bmp])
    next
      case (Some b1)
      have "set_cols f w y (x + 1) b1 = set_cols f' w y (x + 1) b1"
        using "1.IH" [OF True Some] "1.prems" by simp
      then show ?thesis
        using True l Some
        by (simp add: set_cols.simps [of f w y x bmp]
            set_cols.simps [of f' w y x bmp])
    qed
  qed
qed

lemma set_rows_cong:
  assumes "\<forall>i j. 0 \<le> i \<and> i < w \<and> y \<le> j \<and> j < h \<longrightarrow> f i j = f' i j"
  shows "set_rows f w h y bmp = set_rows f' w h y bmp"
  using assms
proof (induction f w h y bmp rule: set_rows.induct)
  case (1 f w h y bmp)
  show ?case
  proof (cases "y < h")
    case False
    then show ?thesis
      by (simp add: set_rows.simps [of f w h y bmp] set_rows.simps [of f' w h y bmp])
  next
    case True
    have c: "set_cols f w y 0 bmp = set_cols f' w y 0 bmp"
      using True "1.prems" by (intro set_cols_cong) simp
    show ?thesis
    proof (cases "set_cols f w y 0 bmp")
      case None
      then have "set_cols f' w y 0 bmp = None"
        using c by simp
      then show ?thesis
        using True None
        by (simp add: set_rows.simps [of f w h y bmp]
            set_rows.simps [of f' w h y bmp])
    next
      case (Some b1)
      have s': "set_cols f' w y 0 bmp = Some b1"
        using c Some by simp
      have "set_rows f w h (y + 1) b1 = set_rows f' w h (y + 1) b1"
        using "1.IH" [OF True Some] "1.prems" by simp
      then show ?thesis
        using True s' Some
        by (simp add: set_rows.simps [of f w h y bmp]
            set_rows.simps [of f' w h y bmp])
    qed
  qed
qed

text \<open>\<^verbatim>\<open>fillByGrayMap\<close> on a grid of the right length is the shared loop.\<close>

lemma fill_cols_eq:
  assumes "int (length g) = w * h" "0 \<le> x" "0 \<le> y" "y < h"
  shows "fill_cols g w y x dst = set_cols (dark g w) w y x dst"
  using assms
proof (induction g w y x dst rule: fill_cols.induct)
  case (1 g w y x dst)
  show ?case
  proof (cases "x < w")
    case False
    then show ?thesis
      by (simp add: fill_cols.simps [of g w y x dst]
          set_cols.simps [of "dark g w" w y x dst]
          dark_def [of g w x y])
  next
    case True
    have "0 \<le> y * w + x \<and> y * w + x < int (length g)"
      using idx_bound [of x w y h] True "1.prems" by simp
    then have v: "grid_get g (y * w + x) = Some (g ! nat (y * w + x))"
      by (simp add: grid_get_def)
    show ?thesis
    proof (cases "Set dst (word_of_int x) (word_of_int y) (dark g w x y)")
      case None
      then show ?thesis
        using True v
        by (simp add: fill_cols.simps [of g w y x dst]
            set_cols.simps [of "dark g w" w y x dst]
            dark_def [of g w x y])
    next
      case (Some d1)
      have "fill_cols g w y (x + 1) d1 =
            set_cols (dark g w) w y (x + 1) d1"
        using "1.IH" [OF True v refl, of d1] Some "1.prems" by (simp add: dark_def [of g w x y])
      then show ?thesis
        using True v Some
        by (simp add: fill_cols.simps [of g w y x dst]
            set_cols.simps [of "dark g w" w y x dst]
            dark_def [of g w x y])
    qed
  qed
qed

lemma fill_rows_eq:
  assumes "int (length g) = w * h" "0 \<le> y"
  shows "fill_rows g w h y dst = set_rows (dark g w) w h y dst"
  using assms
proof (induction g w h y dst rule: fill_rows.induct)
  case (1 g w h y dst)
  show ?case
  proof (cases "y < h")
    case False
    then show ?thesis
      by (simp add: fill_rows.simps [of g w h y dst] set_rows.simps [of "dark g w" w h y dst])
  next
    case True
    have c: "fill_cols g w y 0 dst = set_cols (dark g w) w y 0 dst"
      using True "1.prems" by (intro fill_cols_eq [where h = h]) simp_all
    show ?thesis
    proof (cases "fill_cols g w y 0 dst")
      case None
      then have "set_cols (dark g w) w y 0 dst = None"
        using c by simp
      then show ?thesis
        using True None
        by (simp add: fill_rows.simps [of g w h y dst]
            set_rows.simps [of "dark g w" w h y dst])
    next
      case (Some d1)
      have s': "set_cols (dark g w) w y 0 dst = Some d1"
        using c Some by simp
      have "fill_rows g w h (y + 1) d1 =
            set_rows (dark g w) w h (y + 1) d1"
        using "1.IH" [OF True Some] "1.prems" by simp
      then show ?thesis
        using True s' Some
        by (simp add: fill_rows.simps [of g w h y dst]
            set_rows.simps [of "dark g w" w h y dst])
    qed
  qed
qed

lemma floydSteinbergDither_total:
  assumes "0 \<le> w" "0 \<le> h" "int (length g) = w * h"
  shows "\<exists>g'. floydSteinbergDither g w h = Some g' \<and> length g' = length g"
  using dither_rows_total [of g w h 0] assms by (simp add: floydSteinbergDither_def)

text \<open>What \<^verbatim>\<open>ByDither\<close> returns: never a panic, and the pixels of the dithered grid.\<close>

lemma ByDither_spec:
  "\<exists>g g' bmp.
     floatGrayMap src (clamp255 (extent_x src)) (clamp255 (extent_y src)) = Some g \<and>
     floydSteinbergDither g (clamp255 (extent_x src)) (clamp255 (extent_y src)) = Some g' \<and>
     ByDither src = Some bmp \<and> wf_Bitmap bmp \<and>
     Width bmp = word_of_int (clamp255 (extent_x src)) \<and>
     Height bmp = word_of_int (clamp255 (extent_y src)) \<and>
     (\<forall>i j. 0 \<le> i \<and> i < clamp255 (extent_x src) \<and> 0 \<le> j \<and> j < clamp255 (extent_y src) \<longrightarrow>
        pix bmp (word_of_int i) (word_of_int j) = dark g' (clamp255 (extent_x src)) i j)"
proof -
  let ?w = "clamp255 (extent_x src)" and ?h = "clamp255 (extent_y src)"
  let ?c = "Create (word_of_int ?w) (word_of_int ?h)"
  have r: "0 \<le> ?w" "?w \<le> 255" "0 \<le> ?h" "?h \<le> 255"
    using clamp255_range [of "extent_x src"] clamp255_range [of "extent_y src"] by simp_all
  obtain g where g: "floatGrayMap src ?w ?h = Some g" "int (length g) = ?w * ?h"
    using floatGrayMap_total [OF r(1) r(3)] by blast
  obtain g' where g': "floydSteinbergDither g ?w ?h = Some g'" "length g' = length g"
    using floydSteinbergDither_total [OF r(1) r(3) g(2)] by blast
  have f: "fillByGrayMap g' ?c ?w ?h = set_rows (dark g' ?w) ?w ?h 0 ?c"
    using g' g(2) by (simp add: fillByGrayMap_def fill_rows_eq)
  have "\<exists>bmp'. set_rows (dark g' ?w) ?w ?h 0 ?c = Some bmp' \<and> wf_Bitmap bmp' \<and>
           Width bmp' = Width ?c \<and> Height bmp' = Height ?c \<and>
           (\<forall>i j. 0 \<le> i \<and> i < ?w \<and> 0 \<le> j \<and> j < ?h \<longrightarrow>
              pix bmp' (word_of_int i) (word_of_int j) =
                (if 0 \<le> j then dark g' ?w i j else pix ?c (word_of_int i) (word_of_int j)))"
    using r by (intro set_rows_spec) (simp_all add: wf_Create Width_Create Height_Create)
  then obtain bmp where b: "set_rows (dark g' ?w) ?w ?h 0 ?c = Some bmp" "wf_Bitmap bmp"
    "Width bmp = word_of_int ?w" "Height bmp = word_of_int ?h"
    and p: "\<forall>i j. 0 \<le> i \<and> i < ?w \<and> 0 \<le> j \<and> j < ?h \<longrightarrow>
              pix bmp (word_of_int i) (word_of_int j) = dark g' ?w i j"
    by (auto simp add: Width_Create Height_Create)
  have "ByDither src = Some bmp"
    using g g' f b(1) by (simp add: ByDither_def createFromImageSize_eq)
  then show ?thesis
    using g(1) g'(1) b p by blast
qed

lemma extent_cong:
  assumes "MinX src' = MinX src" "MinY src' = MinY src"
    and "MaxX src' = MaxX src" "MaxY src' = MaxY src"
  shows "extent_x src' = extent_x src" "extent_y src' = extent_y src"
  using assms by (simp_all add: extent_x_def extent_y_def)

lemma ByThreshold_cong:
  assumes "MinX src' = MinX src" "MinY src' = MinY src"
    and "MaxX src' = MaxX src" "MaxY src' = MaxY src"
    and "\<forall>i j. 0 \<le> i \<and> i < clamp255 (extent_x src) \<and> 0 \<le> j \<and> j < clamp255 (extent_y src) \<longrightarrow>
           lum_at src' i j = lum_at src i j"
  shows "ByThreshold src' t = ByThreshold src t"
proof -
  have "set_rows (\<lambda>x y. lum_at src' x y < t) (clamp255 (extent_x src)) (clamp255 (extent_y src)) 0 b
      = set_rows (\<lambda>x y. lum_at src x y < t) (clamp255 (extent_x src)) (clamp255 (extent_y src)) 0 b"
    for b
    using assms(5) by (intro set_rows_cong) simp
  then show ?thesis
    by (simp add: ByThreshold_def createFromImageSize_eq thr_rows_eq extent_cong [OF assms(1-4)])
qed

lemma ByDither_cong:
  assumes "MinX src' = MinX src" "MinY src' = MinY src"
    and "MaxX src' = MaxX src" "MaxY src' = MaxY src"
    and "\<forall>i j. 0 \<le> i \<and> i < clamp255 (extent_x src) \<and> 0 \<le> j \<and> j < clamp255 (extent_y src) \<longrightarrow>
           lum_at src' i j = lum_at src i j"
  shows "ByDither src' = ByDither src"
proof -
  have "gray_rows src' (clamp255 (extent_x src)) (clamp255 (extent_y src)) 0 g
      = gray_rows src (clamp255 (extent_x src)) (clamp255 (extent_y src)) 0 g" for g
    using assms(5) by (intro gray_rows_cong) simp
  then have "floatGrayMap src' (clamp255 (extent_x src)) (clamp255 (extent_y src))
           = floatGrayMap src (clamp255 (extent_x src)) (clamp255 (extent_y src))"
    by (simp add: floatGrayMap_def)
  then show ?thesis
    by (simp add: ByDither_def createFromImageSize_eq extent_cong [OF assms(1-4)])
qed

lemma clamp255_max_min: "clamp255 e = max 0 (min 255 e)"
  by (simp add: clamp255_def max_def min_def)

lemma wrap64_id: "- (2 ^ 63) \<le> i \<Longrightarrow> i < 2 ^ 63 \<Longrightarrow> wrap64 i = i"
  unfolding wrap64_def by simp

text \<open>
  Claim C9. \<^verbatim>\<open>ByThreshold\<close> and \<^verbatim>\<open>ByDither\<close> return a bitmap whose width and height
  are the extents of the source bounds clamped to \<open>0..255\<close>, and they read the source
  inside that window only: two sources with the same bounds that agree inside the
  window convert to the same bitmap.
\<close>

theorem converted_size:
  "\<exists>bt bd. ByThreshold src threshold = Some bt \<and> ByDither src = Some bd \<and>
     int (unat (Width bt)) = max 0 (min 255 (extent_x src)) \<and>
     int (unat (Height bt)) = max 0 (min 255 (extent_y src)) \<and>
     Width bd = Width bt \<and> Height bd = Height bt \<and>
     (\<forall>src'. MinX src' = MinX src \<and> MinY src' = MinY src \<and>
             MaxX src' = MaxX src \<and> MaxY src' = MaxY src \<and>
             (\<forall>i j. 0 \<le> i \<and> i < max 0 (min 255 (extent_x src)) \<and>
                    0 \<le> j \<and> j < max 0 (min 255 (extent_y src)) \<longrightarrow>
                    lum_at src' i j = lum_at src i j) \<longrightarrow>
        ByThreshold src' threshold = ByThreshold src threshold \<and> ByDither src' = ByDither src)"
proof -
  let ?w = "clamp255 (extent_x src)" and ?h = "clamp255 (extent_y src)"
  have r: "0 \<le> ?w" "?w < 256" "0 \<le> ?h" "?h < 256"
    using clamp255_range [of "extent_x src"] clamp255_range [of "extent_y src"] by simp_all
  obtain bt where bt: "ByThreshold src threshold = Some bt"
    "Width bt = word_of_int ?w" "Height bt = word_of_int ?h"
    using ByThreshold_spec [of src threshold] by blast
  obtain bd where bd: "ByDither src = Some bd"
    "Width bd = word_of_int ?w" "Height bd = word_of_int ?h"
    using ByDither_spec [of src] by blast
  have "int (unat (Width bt)) = ?w" "int (unat (Height bt)) = ?h"
    using bt r by (simp_all add: unat_u8_of_int)
  moreover have "ByThreshold src' threshold = ByThreshold src threshold \<and>
      ByDither src' = ByDither src"
    if "MinX src' = MinX src \<and> MinY src' = MinY src \<and> MaxX src' = MaxX src \<and> MaxY src' = MaxY src \<and>
        (\<forall>i j. 0 \<le> i \<and> i < ?w \<and> 0 \<le> j \<and> j < ?h \<longrightarrow> lum_at src' i j = lum_at src i j)"
    for src'
    using that ByThreshold_cong [of src' src threshold] ByDither_cong [of src' src] by blast
  ultimately show ?thesis
    using bt bd unfolding clamp255_max_min [symmetric] by auto
qed

theorem converted_size_witness:
  "\<exists>bt bd. ByThreshold (img_300x10 0) 50 = Some bt \<and> ByDither (img_300x10 0) = Some bd \<and>
     extent_x (img_300x10 0) = 300 \<and> extent_y (img_300x10 0) = 10 \<and>
     Width bt = 255 \<and> Height bt = 10 \<and> Width bd = 255 \<and> Height bd = 10 \<and>
     lum_at (img_300x10 255) 255 0 \<noteq> lum_at (img_300x10 0) 255 0 \<and>
     ByThreshold (img_300x10 255) 50 = ByThreshold (img_300x10 0) 50 \<and>
     ByDither (img_300x10 255) = ByDither (img_300x10 0)"
proof -
  let ?s = "img_300x10 0" and ?s' = "img_300x10 255"
  have ex: "extent_x ?s = 300" and ey: "extent_y ?s = 10"
    by (simp_all add: extent_x_def extent_y_def img_300x10_def wrap64_def)
  have bounds: "MinX ?s' = MinX ?s \<and> MinY ?s' = MinY ?s \<and> MaxX ?s' = MaxX ?s \<and> MaxY ?s' = MaxY ?s"
    by (simp add: img_300x10_def)
  have agree: "\<forall>i j. 0 \<le> i \<and> i < max 0 (min 255 (extent_x ?s)) \<and>
                 0 \<le> j \<and> j < max 0 (min 255 (extent_y ?s)) \<longrightarrow> lum_at ?s' i j = lum_at ?s i j"
  proof (intro allI impI)
    fix i j :: int
    assume "0 \<le> i \<and> i < max 0 (min 255 (extent_x ?s)) \<and>
            0 \<le> j \<and> j < max 0 (min 255 (extent_y ?s))"
    then have i: "0 \<le> i" "i < 255"
      by (simp_all add: ex)
    then have "wrap64 (i + 5) = i + 5"
      by (intro wrap64_id) simp_all
    then show "lum_at ?s' i j = lum_at ?s i j"
      using i by (simp add: lum_at_def img_300x10_def)
  qed
  have differ: "lum_at ?s' 255 0 \<noteq> lum_at ?s 255 0"
    by (simp add: lum_at_def img_300x10_def wrap64_def)
  from converted_size [of ?s 50] obtain bt bd where
    b: "ByThreshold ?s 50 = Some bt" "ByDither ?s = Some bd"
      "int (unat (Width bt)) = max 0 (min 255 (extent_x ?s))"
      "int (unat (Height bt)) = max 0 (min 255 (extent_y ?s))"
      "Width bd = Width bt" "Height bd = Height bt"
    and w: "\<forall>src'. MinX src' = MinX ?s \<and> MinY src' = MinY ?s \<and>
             MaxX src' = MaxX ?s \<and> MaxY src' = MaxY ?s \<and>
             (\<forall>i j. 0 \<le> i \<and> i < max 0 (min 255 (extent_x ?s)) \<and>
                    0 \<le> j \<and> j < max 0 (min 255 (extent_y ?s)) \<longrightarrow>
                    lum_at src' i j = lum_at ?s i j) \<longrightarrow>
        ByThreshold src' 50 = ByThreshold ?s 50 \<and> ByDither src' = ByDither ?s"
    by blast
  have "uint (Width bt) = 255" "uint (Height bt) = 10"
    using b(3,4) by (simp_all add: ex ey)
  then have d: "Width bt = 255" "Height bt = 10"
    by (simp_all add: word_uint_eq_iff)
  have "ByThreshold ?s' 50 = ByThreshold ?s 50 \<and> ByDither ?s' = ByDither ?s"
    using w [rule_format, of ?s'] bounds agree by blast
  then show ?thesis
    using b d ex ey differ by simp
qed

text \<open>The step, with its indices told by name.\<close>

lemma dither_cell_indices:
  "dither_cell grayMap w h y x = do {
     orig \<leftarrow> grid_get grayMap (cell_index w y x);
     let new = (if orig \<ge> 0.5 then 1.0 else 0.0);
     g \<leftarrow> grid_put grayMap (cell_index w y x) new;
     let quantError = orig - new;
     g \<leftarrow> (if x \<noteq> w - 1 then grid_add g (cell_index w y (x + 1)) (quantError * 7 / 16)
          else Some g);
     if y \<noteq> h - 1 then do {
       g \<leftarrow> grid_add g (southwest_index w y x) (quantError * 3 / 16);
       g \<leftarrow> grid_add g (cell_index w (y + 1) x) (quantError * 5 / 16);
       if x \<noteq> w - 1 then grid_add g (cell_index w (y + 1) (x + 1)) (quantError * 1 / 16)
       else Some g
     } else Some g
   }"
proof -
  have e: "(y + 0) * w + x + 1 = cell_index w y (x + 1)"
    "(y + 1) * w + x - 1 = southwest_index w y x"
    "(y + 1) * w + x + 0 = cell_index w (y + 1) x"
    "(y + 1) * w + x + 1 = cell_index w (y + 1) (x + 1)"
    "y * w + x = cell_index w y x"
    by (simp_all add: cell_index_def southwest_index_def)
  show ?thesis
    unfolding dither_cell_def e ..
qed

text \<open>
  Claim C10, as the code has it. On a grid of length \<open>w * h\<close> the pass never indexes
  outside the grid: it returns a grid of the same length. In the first column, on a
  row that is not the last, the southwest write goes to flat index \<open>(y + 1) * w - 1\<close>,
  which lies inside the grid and is the last cell of the current row.
\<close>

theorem dither_never_faults:
  assumes "0 \<le> w" "0 \<le> h" "int (length grayMap) = w * h"
  shows "(\<exists>g. floydSteinbergDither grayMap w h = Some g \<and> length g = length grayMap)
       \<and> (\<forall>y. 0 \<le> y \<and> y < h - 1 \<and> 0 < w \<longrightarrow>
             southwest_index w y 0 = (y + 1) * w - 1 \<and>
             0 \<le> southwest_index w y 0 \<and> southwest_index w y 0 < int (length grayMap) \<and>
             southwest_index w y 0 = cell_index w y (w - 1))"
proof (intro conjI allI impI)
  show "\<exists>g. floydSteinbergDither grayMap w h = Some g \<and> length g = length grayMap"
    using floydSteinbergDither_total [OF assms] .
next
  fix y
  assume "0 \<le> y \<and> y < h - 1 \<and> 0 < w"
  then have b: "0 \<le> y * w + (w - 1) \<and> y * w + (w - 1) < w * h"
    using idx_bound [of "w - 1" w y h] by simp
  have e: "southwest_index w y 0 = y * w + (w - 1)"
    by (simp add: southwest_index_def algebra_simps)
  show "southwest_index w y 0 = (y + 1) * w - 1"
    by (simp add: southwest_index_def)
  show "0 \<le> southwest_index w y 0"
    using b e by simp
  show "southwest_index w y 0 < int (length grayMap)"
    using b e assms by simp
  show "southwest_index w y 0 = cell_index w y (w - 1)"
    using e by (simp add: cell_index_def)
qed

theorem dither_never_faults_witness:
  "(0::int) \<le> 2 \<and> int (length [1/4, 3/8, 0, 0::real]) = 2 * 2
   \<and> (\<exists>g. floydSteinbergDither [1/4, 3/8, 0, 0] 2 2 = Some g \<and>
          length g = length [1/4, 3/8, 0, 0::real])
   \<and> (0::int) < 2 - 1
   \<and> southwest_index 2 0 0 = 1 \<and> southwest_index 2 0 0 < 4
   \<and> southwest_index 2 0 0 = cell_index 2 0 (2 - 1)"
proof -
  have a: "(0::int) \<le> 2" "int (length [1/4, 3/8, 0, 0::real]) = 2 * 2"
    by simp_all
  have y: "(0::int) \<le> 0 \<and> (0::int) < 2 - 1 \<and> (0::int) < 2"
    by simp
  note t = dither_never_faults [OF a(1) a(1) a(2)]
  from t have "\<exists>g. floydSteinbergDither [1/4, 3/8, 0, 0] 2 2 = Some g \<and>
      length g = length [1/4, 3/8, 0, 0::real]"
    by (rule conjunct1)
  moreover from t y have "southwest_index 2 0 0 = (0 + 1) * 2 - 1 \<and>
     0 \<le> southwest_index 2 0 0 \<and> southwest_index 2 0 0 < int (length [1/4, 3/8, 0, 0::real]) \<and>
     southwest_index 2 0 0 = cell_index 2 0 (2 - 1)"
    by blast
  ultimately show ?thesis
    by simp
qed

text \<open>
  In a grid 2 wide, the southwest write of the step at \<open>(0, 0)\<close> goes to the flat index
  of the cell \<open>(1, 0)\<close>. That cell has not been visited: the loop over the row runs
  the step at \<open>(0, 0)\<close> and then the step at \<open>(1, 0)\<close>, which reads the \<open>17/32\<close> the first
  step left there and quantizes it.
\<close>

theorem southwest_target_not_yet_visited:
  "southwest_index 2 0 0 = cell_index 2 0 1
   \<and> cell_index 2 0 0 < southwest_index 2 0 0
   \<and> dither_cell [1/4, 3/8, 0, 0] 2 2 0 0 = Some [0, 17/32, 5/64, 1/64]
   \<and> dither_cols [1/4, 3/8, 0, 0] 2 2 0 0 = dither_cell [0, 17/32, 5/64, 1/64] 2 2 0 1
   \<and> dither_cell [0, 17/32, 5/64, 1/64] 2 2 0 1 = Some [0, 1, -5/512, -67/512]"
  by code_simp

text \<open>
  Away from the first column the step of the code is the step of the specification.
\<close>

lemma dither_cell_is_spec:
  assumes "0 < x" "x < w" "0 \<le> y" "y < h"
  shows "dither_cell g w h y x = spec_dither_cell g w h y x"
proof -
  have i: "inside w h (x + 1) y \<longleftrightarrow> x \<noteq> w - 1" "inside w h (x - 1) (y + 1) \<longleftrightarrow> y \<noteq> h - 1"
    "inside w h x (y + 1) \<longleftrightarrow> y \<noteq> h - 1" "inside w h (x + 1) (y + 1) \<longleftrightarrow> x \<noteq> w - 1 \<and> y \<noteq> h - 1"
    using assms by (auto simp add: inside_def)
  have e: "(y + 0) * w + x + 1 = y * w + (x + 1)" "(y + 1) * w + x - 1 = (y + 1) * w + (x - 1)"
    "(y + 1) * w + x + 0 = (y + 1) * w + x" "(y + 1) * w + x + 1 = (y + 1) * w + (x + 1)"
    by simp_all
  show ?thesis
    unfolding dither_cell_def spec_dither_cell_def i e
    by (cases "y \<noteq> h - 1") (simp_all add: Let_def cong: Option.bind_cong)
qed

text \<open>
  Claim C2 at a concrete input. The 2 by 2 source with luminances 64 and 96 in the top
  row: at the cell \<open>(0, 0)\<close> the error is \<open>64/255\<close>. The southwest neighbour \<open>(-1, 1)\<close>
  is outside the grid, and the code adds its \<open>3/16\<close> share to the cell \<open>(1, 0)\<close>, which
  ends the step with \<open>136/255\<close> where the specified step leaves \<open>124/255\<close>; the pixel
  \<open>(1, 0)\<close> of the converted bitmap comes out white.
\<close>

theorem southwest_share_lands_in_row:
  "floatGrayMap img_2x2 2 2 = Some [64/255, 96/255, 0, 0]
   \<and> dither_cell [64/255, 96/255, 0, 0] 2 2 0 0 = Some [0, 136/255, 20/255, 4/255]
   \<and> spec_dither_cell [64/255, 96/255, 0, 0] 2 2 0 0 = Some [0, 124/255, 20/255, 4/255]
   \<and> ByDither img_2x2 = Some \<lparr>Width = 2, Height = 2, PixelRows = [[1], [3]]\<rparr>
   \<and> Get \<lparr>Width = 2, Height = 2, PixelRows = [[1], [3]]\<rparr> 1 0 = Some False"
  by code_simp

text \<open>
  In a grid at least 2 wide, every write of a step other than the store of the
  quantized value goes to a cell that comes later in the order of the loops: the step
  at \<open>(x, y)\<close> leaves the earlier cells alone and leaves the quantized value in its own.
\<close>

lemma grid_add_frame:
  assumes "grid_add a i v = Some b" "k < i" "0 \<le> k"
  shows "length b = length a \<and> (\<forall>j. 0 \<le> j \<and> j \<le> k \<longrightarrow> b ! nat j = a ! nat j)"
  using assms by (auto simp add: grid_add_def split: if_splits)

lemma opt_add_frame:
  assumes "(if c then grid_add a i v else Some a) = Some b" "k < i" "0 \<le> k"
  shows "length b = length a \<and> (\<forall>j. 0 \<le> j \<and> j \<le> k \<longrightarrow> b ! nat j = a ! nat j)"
  using assms grid_add_frame [of a i v b k] by (cases c) simp_all

lemma step_frame:
  assumes k: "0 \<le> k" "k < int (length g)" and w2: "(2::int) \<le> w"
    and step: "do {
       g \<leftarrow> grid_put g k n;
       g \<leftarrow> (if c1 then grid_add g (k + 1) v1 else Some g);
       if c2 then do {
         g \<leftarrow> grid_add g (k + w - 1) v2;
         g \<leftarrow> grid_add g (k + w) v3;
         if c1 then grid_add g (k + w + 1) v4 else Some g
       } else Some g
     } = Some g'"
  shows "length g' = length g \<and> (\<forall>j. 0 \<le> j \<and> j < k \<longrightarrow> g' ! nat j = g ! nat j) \<and>
         g' ! nat k = n"
proof -
  let ?g1 = "g[nat k := n]"
  have p: "grid_put g k n = Some ?g1"
    using k by (simp add: grid_put_def)
  have g1: "length ?g1 = length g \<and> (\<forall>j. 0 \<le> j \<and> j < k \<longrightarrow> ?g1 ! nat j = g ! nat j) \<and>
      ?g1 ! nat k = n"
    using k by (auto simp add: nth_list_update)
  from step obtain g2 where
    a2: "(if c1 then grid_add ?g1 (k + 1) v1 else Some ?g1) = Some g2" and
    rest: "(if c2 then do {
         g \<leftarrow> grid_add g2 (k + w - 1) v2;
         g \<leftarrow> grid_add g (k + w) v3;
         if c1 then grid_add g (k + w + 1) v4 else Some g
       } else Some g2) = Some g'"
    unfolding p by (auto simp add: bind_eq_Some_conv)
  have f2: "length g2 = length ?g1 \<and> (\<forall>j. 0 \<le> j \<and> j \<le> k \<longrightarrow> g2 ! nat j = ?g1 ! nat j)"
    using opt_add_frame [OF a2, of k] k by simp
  have f': "length g' = length g2 \<and> (\<forall>j. 0 \<le> j \<and> j \<le> k \<longrightarrow> g' ! nat j = g2 ! nat j)"
  proof (cases c2)
    case False
    then show ?thesis
      using rest by simp
  next
    case True
    then obtain g3 g4 where a:
      "grid_add g2 (k + w - 1) v2 = Some g3"
      "grid_add g3 (k + w) v3 = Some g4"
      "(if c1 then grid_add g4 (k + w + 1) v4 else Some g4) = Some g'"
      using rest by (auto simp add: bind_eq_Some_conv)
    have "length g3 = length g2 \<and> (\<forall>j. 0 \<le> j \<and> j \<le> k \<longrightarrow> g3 ! nat j = g2 ! nat j)"
      using grid_add_frame [OF a(1), of k] k w2 by simp
    moreover
    have "length g4 = length g3 \<and> (\<forall>j. 0 \<le> j \<and> j \<le> k \<longrightarrow> g4 ! nat j = g3 ! nat j)"
      using grid_add_frame [OF a(2), of k] k w2 by simp
    moreover
    have "length g' = length g4 \<and> (\<forall>j. 0 \<le> j \<and> j \<le> k \<longrightarrow> g' ! nat j = g4 ! nat j)"
      using opt_add_frame [OF a(3), of k] k w2 by simp
    ultimately show ?thesis
      by simp
  qed
  show ?thesis
    using g1 f2 f' k(1) by simp
qed

lemma dither_cell_frame:
  assumes len: "int (length g) = w * h" and r: "0 \<le> x" "x < w" "0 \<le> y" "y < h"
    and w2: "2 \<le> w" and step: "dither_cell g w h y x = Some g'"
  shows "length g' = length g"
    and "\<forall>j. 0 \<le> j \<and> j < y * w + x \<longrightarrow> g' ! nat j = g ! nat j"
    and "g' ! nat (y * w + x) = (if g ! nat (y * w + x) \<ge> 0.5 then 1 else 0)"
proof -
  define k where "k = y * w + x"
  have e: "(y + 0) * w + x + 1 = k + 1" "(y + 1) * w + x - 1 = k + w - 1"
    "(y + 1) * w + x + 0 = k + w" "(y + 1) * w + x + 1 = k + w + 1"
    by (simp_all add: k_def algebra_simps)
  have k: "0 \<le> k" "k < int (length g)"
    using idx_bound [OF r] len by (simp_all add: k_def)
  have g0: "grid_get g k = Some (g ! nat k)"
    using k by (simp add: grid_get_def)
  note s = step [unfolded dither_cell_def e k_def [symmetric] g0 Option.bind_lunit Let_def]
  have "length g' = length g \<and> (\<forall>j. 0 \<le> j \<and> j < k \<longrightarrow> g' ! nat j = g ! nat j) \<and>
      g' ! nat k = (if g ! nat k \<ge> 0.5 then 1.0 else 0.0)"
    by (rule step_frame [OF k w2 s])
  then show "length g' = length g"
    and "\<forall>j. 0 \<le> j \<and> j < y * w + x \<longrightarrow> g' ! nat j = g ! nat j"
    and "g' ! nat (y * w + x) = (if g ! nat (y * w + x) \<ge> 0.5 then 1 else 0)"
    by (simp_all add: k_def)
qed

lemma dither_cols_frame:
  assumes "int (length g) = w * h" "0 \<le> x" "0 \<le> y" "y < h" "2 \<le> w"
    and "dither_cols g w h y x = Some g'"
  shows "length g' = length g \<and>
         (\<forall>j. 0 \<le> j \<and> j < y * w + x \<longrightarrow> g' ! nat j = g ! nat j) \<and>
         (\<forall>j. y * w + x \<le> j \<and> j < y * w + w \<longrightarrow> g' ! nat j = 0 \<or> g' ! nat j = 1)"
  using assms
proof (induction g w h y x arbitrary: g' rule: dither_cols.induct)
  case (1 g w h y x)
  show ?case
  proof (cases "x < w")
    case False
    then show ?thesis
      using "1.prems"(6) by (simp add: dither_cols.simps [of g w h y x])
  next
    case True
    obtain g1 where c: "dither_cell g w h y x = Some g1"
      using dither_cell_total [of g w h x y] True "1.prems" by blast
    have f: "length g1 = length g"
      "\<forall>j. 0 \<le> j \<and> j < y * w + x \<longrightarrow> g1 ! nat j = g ! nat j"
      "g1 ! nat (y * w + x) = (if g ! nat (y * w + x) \<ge> 0.5 then 1 else 0)"
      using dither_cell_frame [OF "1.prems"(1,2) True "1.prems"(3,4,5) c] by blast+
    have n: "dither_cols g1 w h y (x + 1) = Some g'"
      using "1.prems"(6) True c by (simp add: dither_cols.simps [of g w h y x])
    have ih: "length g' = length g1"
      "\<forall>j. 0 \<le> j \<and> j < y * w + (x + 1) \<longrightarrow> g' ! nat j = g1 ! nat j"
      "\<forall>j. y * w + (x + 1) \<le> j \<and> j < y * w + w \<longrightarrow> g' ! nat j = 0 \<or> g' ! nat j = 1"
      using "1.IH" [OF True c _ _ _ _ _ n] f(1) "1.prems" by auto
    have "0 \<le> y * w + x"
      using idx_bound [of x w y h] True "1.prems" by simp
    then have at: "g' ! nat (y * w + x) = 0 \<or> g' ! nat (y * w + x) = 1"
      using ih(2) f(3) by simp
    have "g' ! nat j = 0 \<or> g' ! nat j = 1" if "y * w + x \<le> j \<and> j < y * w + w" for j
    proof (cases "j = y * w + x")
      case True
      then show ?thesis
        using at by simp
    next
      case False
      then show ?thesis
        using ih(3) that by simp
    qed
    moreover have "g' ! nat j = g ! nat j" if "0 \<le> j \<and> j < y * w + x" for j
      using ih(2) f(2) that by simp
    ultimately show ?thesis
      using ih(1) f(1) by simp
  qed
qed

lemma dither_rows_frame:
  assumes "int (length g) = w * h" "0 \<le> y" "2 \<le> w"
    and "dither_rows g w h y = Some g'"
  shows "length g' = length g \<and>
         (\<forall>j. 0 \<le> j \<and> j < y * w \<longrightarrow> g' ! nat j = g ! nat j) \<and>
         (\<forall>j. y * w \<le> j \<and> j < h * w \<longrightarrow> g' ! nat j = 0 \<or> g' ! nat j = 1)"
  using assms
proof (induction g w h y arbitrary: g' rule: dither_rows.induct)
  case (1 g w h y)
  show ?case
  proof (cases "y < h")
    case False
    then have "h * w \<le> y * w"
      using "1.prems" by (intro mult_right_mono) simp_all
    then show ?thesis
      using False "1.prems"(4) by (simp add: dither_rows.simps [of g w h y])
  next
    case True
    obtain g1 where c: "dither_cols g w h y 0 = Some g1"
      using dither_cols_total [of g w h 0 y] True "1.prems" by auto
    have f: "length g1 = length g"
      "\<forall>j. 0 \<le> j \<and> j < y * w \<longrightarrow> g1 ! nat j = g ! nat j"
      "\<forall>j. y * w \<le> j \<and> j < y * w + w \<longrightarrow> g1 ! nat j = 0 \<or> g1 ! nat j = 1"
      using dither_cols_frame [OF "1.prems"(1) _ "1.prems"(2) True "1.prems"(3) c] by auto
    have n: "dither_rows g1 w h (y + 1) = Some g'"
      using "1.prems"(4) True c by (simp add: dither_rows.simps [of g w h y])
    have ih: "length g' = length g1"
      "\<forall>j. 0 \<le> j \<and> j < (y + 1) * w \<longrightarrow> g' ! nat j = g1 ! nat j"
      "\<forall>j. (y + 1) * w \<le> j \<and> j < h * w \<longrightarrow> g' ! nat j = 0 \<or> g' ! nat j = 1"
      using "1.IH" [OF True c _ _ _ n] f(1) "1.prems" by auto
    have e: "(y + 1) * w = y * w + w"
      by (simp add: algebra_simps)
    have y0: "0 \<le> y * w"
      using "1.prems" by simp
    have "g' ! nat j = 0 \<or> g' ! nat j = 1" if "y * w \<le> j \<and> j < h * w" for j
    proof (cases "j < (y + 1) * w")
      case True
      then have "g' ! nat j = g1 ! nat j"
        using ih(2) that y0 by simp
      then show ?thesis
        using f(3) that True e by simp
    next
      case False
      then show ?thesis
        using ih(3) that by simp
    qed
    moreover have "g' ! nat j = g ! nat j" if "0 \<le> j \<and> j < y * w" for j
      using ih(2) f(2) that e "1.prems" by simp
    ultimately show ?thesis
      using ih(1) f(1) by simp
  qed
qed

text \<open>
  So in a grid at least 2 wide the value a cell is quantized to is its final value:
  when the pass ends every cell holds 0 or 1.
\<close>

lemma dither_frozen:
  assumes "2 \<le> w" "0 \<le> h" "int (length g) = w * h"
    and "floydSteinbergDither g w h = Some g'"
  shows "length g' = length g \<and> (\<forall>i < length g'. g' ! i = 0 \<or> g' ! i = 1)"
proof -
  have f: "length g' = length g"
    "\<forall>j. 0 * w \<le> j \<and> j < h * w \<longrightarrow> g' ! nat j = 0 \<or> g' ! nat j = 1"
    using dither_rows_frame [OF assms(3) _ assms(1), of 0 g'] assms(4)
    by (simp_all add: floydSteinbergDither_def)
  have "g' ! i = 0 \<or> g' ! i = 1" if "i < length g'" for i
    using f(2) [rule_format, of "int i"] that f(1) assms(3) by (simp add: mult.commute)
  then show ?thesis
    using f(1) by simp
qed

text \<open>
  Claim C3 at a concrete input. The 1 by 2 source with luminance 128 at the top: the
  cell \<open>(0, 0)\<close> is quantized to 1, and the southwest write of the same step, which in a
  grid 1 wide goes to the cell itself, changes it to \<open>1233/1360\<close>, the value the cell
  has when the pass ends.
\<close>

theorem quantized_cell_rewritten:
  "floatGrayMap img_1x2 1 2 = Some [128/255, 0]
   \<and> southwest_index 1 0 0 = cell_index 1 0 0
   \<and> dither_cell [128/255, 0] 1 2 0 0 = Some [1233/1360, - 127/816]
   \<and> floydSteinbergDither [128/255, 0] 1 2 = Some [1233/1360, 0]"
  by code_simp

end
